theory Spec2Isabelle
  imports Main "HOL-Library.Sublist"
begin

section \<open>Strings\<close>

text \<open>
  A JavaScript string is modelled as a \<^typ>\<open>string\<close>: the list of its UTF-16 code
  units, for code units below 256. Within that range \<open>toLowerCase\<close> works unit by unit:
  it adds 32 to \<open>A\<close>..\<open>Z\<close> and to the Latin-1 capitals 192..222 (215, the multiplication
  sign, apart) and leaves every other unit alone.

  \<open>toUpperCase\<close> is modelled unit by unit too. Three units below 256 have no upper case
  of one unit below 256 (223 becomes \<open>SS\<close>, 181 and 255 leave the range); the model
  leaves them alone. The source only asks whether the upper-cased error code is one of
  six ASCII words, none of which holds \<open>SS\<close>, so the answer is the same.
\<close>

definition toLowerCase_char :: "char \<Rightarrow> char" where
  "toLowerCase_char c =
     (let n = (of_char c :: nat)
      in if (65 \<le> n \<and> n \<le> 90) \<or> (192 \<le> n \<and> n \<le> 222 \<and> n \<noteq> 215)
         then char_of (n + 32) else c)"

definition toLowerCase :: "string \<Rightarrow> string" where
  "toLowerCase s = map toLowerCase_char s"

definition toUpperCase_char :: "char \<Rightarrow> char" where
  "toUpperCase_char c =
     (let n = (of_char c :: nat)
      in if (97 \<le> n \<and> n \<le> 122) \<or> (224 \<le> n \<and> n \<le> 254 \<and> n \<noteq> 247)
         then char_of (n - 32) else c)"

definition toUpperCase :: "string \<Rightarrow> string" where
  "toUpperCase s = map toUpperCase_char s"

text \<open>\<open>s.includes(p)\<close>: \<open>p\<close> occurs in \<open>s\<close> as a contiguous run of units.\<close>

definition includes_str :: "string \<Rightarrow> string \<Rightarrow> bool" where
  "includes_str s p = sublist p s"

section \<open>The failure classifier\<close>

text \<open>
  An error thrown by the transport: the fields the classifier and the handlers read.
  A field is \<open>None\<close> when the property is missing; \<open>err_string\<close> is what
  \<open>String(err)\<close> gives.
\<close>

record smtp_error =
  err_responseCode :: "int option"
  err_code :: "string option"
  err_message :: "string option"
  err_response :: "string option"
  err_string :: string

datatype failure_class = TEMP_AUTH | NETWORK | OTHER

text \<open>\<open>String(x || "")\<close> for a property that is a string or missing.\<close>

definition str_or_empty :: "string option \<Rightarrow> string" where
  "str_or_empty x = (case x of None \<Rightarrow> [] | Some s \<Rightarrow> s)"

text \<open>The argument is \<open>None\<close> for a thrown value that is falsy.\<close>

definition isTemporaryAuthError :: "smtp_error option \<Rightarrow> bool" where
  "isTemporaryAuthError err =
     (case err of
        None \<Rightarrow> False
      | Some e \<Rightarrow>
          if err_responseCode e = Some 454 then True
          else
            (let m = toLowerCase (str_or_empty (err_message e));
                 r = toLowerCase (str_or_empty (err_response e))
             in includes_str m ''454 4.7.0'' \<or>
                includes_str r ''454 4.7.0'' \<or>
                includes_str m ''temporary authentication failure'' \<or>
                includes_str r ''temporary authentication failure''))"

definition network_codes :: "string list" where
  "network_codes =
     [''ECONNECTION'', ''ECONNRESET'', ''ETIMEDOUT'', ''ESOCKET'', ''EAI_AGAIN'', ''ENOTFOUND'']"

definition isNetworkError :: "smtp_error option \<Rightarrow> bool" where
  "isNetworkError err =
     (case err of
        None \<Rightarrow> False
      | Some e \<Rightarrow>
          (let code = toUpperCase (str_or_empty (err_code e))
           in if code \<in> set network_codes then True
              else
                (let msg = toLowerCase (str_or_empty (err_message e));
                     resp = toLowerCase (str_or_empty (err_response e));
                     text = msg @ '' '' @ resp
                 in includes_str text ''network error'' \<or>
                    includes_str text ''connection lost'' \<or>
                    includes_str text ''connection closed'' \<or>
                    includes_str text ''connection reset'' \<or>
                    includes_str text ''socket hang up'' \<or>
                    includes_str text ''timed out'' \<or>
                    includes_str text ''timeout'')))"

text \<open>The class recorded with a final error (\<open>reason\<close> in \<open>sendToRecipientWithRetry\<close>).\<close>

definition reason :: "smtp_error option \<Rightarrow> failure_class" where
  "reason err =
     (let tempAuth = isTemporaryAuthError err; netErr = isNetworkError err
      in if tempAuth then TEMP_AUTH else if netErr then NETWORK else OTHER)"

section \<open>The template engine\<close>

text \<open>
  A recipient is one element of the submitted array: \<open>None\<close> for \<open>null\<close>, otherwise
  the entries of the object in the order \<open>Object.entries\<close> lists them (keys that are
  array indices first, then the others as inserted), with distinct keys. A value is
  \<open>null\<close> or a string, as the rows of a parsed CSV file are.
\<close>

datatype jval = JNull | JStr string

type_synonym attrs = "(string \<times> jval) list"

type_synonym recipient = "attrs option"

text \<open>\<open>String(value)\<close>.\<close>

definition String_of :: "jval \<Rightarrow> string" where
  "String_of v = (case v of JNull \<Rightarrow> ''null'' | JStr s \<Rightarrow> s)"

text \<open>
  \<open>getField\<close>: the first key equal to the field name once both are lower-cased. A
  missing or empty key, and a \<open>null\<close> value, give the default.
\<close>

definition getField :: "recipient \<Rightarrow> string \<Rightarrow> string \<Rightarrow> string" where
  "getField recipient fieldName defaultValue =
     (case recipient of
        None \<Rightarrow> defaultValue
      | Some entries \<Rightarrow>
          (case find (\<lambda>k. toLowerCase k = toLowerCase fieldName) (map fst entries) of
             None \<Rightarrow> defaultValue
           | Some key \<Rightarrow>
               if key = [] then defaultValue
               else
                 (case map_of entries key of
                    None \<Rightarrow> defaultValue
                  | Some JNull \<Rightarrow> defaultValue
                  | Some (JStr s) \<Rightarrow> s)))"

text \<open>
  \<open>escapeRegExp\<close> puts a backslash before each of the characters
  \<open>. * + ? ^ $ { } ( ) | [ ] \<close> and the backslash itself.
\<close>

definition backslash :: char where
  "backslash = CHR 0x5C"

definition regex_special :: "char \<Rightarrow> bool" where
  "regex_special c \<longleftrightarrow> c \<in> set ''.*+?^${}()|[]'' \<or> c = backslash"

definition escapeRegExp :: "string \<Rightarrow> string" where
  "escapeRegExp str = concat (map (\<lambda>c. if regex_special c then [backslash, c] else [c]) str)"

text \<open>
  The text matched by a pattern source in which a backslash is always followed by the
  character it escapes and no other character is special: what
  \<open>new RegExp(source, "g")\<close> matches for the sources \<open>applyTemplate\<close> builds.
\<close>

fun literal_of_pattern :: "string \<Rightarrow> string" where
  "literal_of_pattern [] = []"
| "literal_of_pattern (c # cs) =
     (if c = backslash
      then (case cs of [] \<Rightarrow> [c] | d # ds \<Rightarrow> d # literal_of_pattern ds)
      else c # literal_of_pattern cs)"

text \<open>
  The replacement text of \<open>String.prototype.replace\<close> for one match of a pattern with
  no capture group: \<open>$$\<close> is a dollar sign, \<open>$&\<close> the matched text, \<open>$`\<close> the text
  before the match and \<open>$'\<close> the text after it; any other dollar sign stands for
  itself.
\<close>

fun getSubstitution :: "string \<Rightarrow> string \<Rightarrow> string \<Rightarrow> string \<Rightarrow> string" where
  "getSubstitution matched bef aft [] = []"
| "getSubstitution matched bef aft (c # cs) =
     (if c = CHR ''$'' then
        (case cs of
           [] \<Rightarrow> [c]
         | d # ds \<Rightarrow>
             if d = CHR ''$'' then CHR ''$'' # getSubstitution matched bef aft ds
             else if d = CHR ''&'' then matched @ getSubstitution matched bef aft ds
             else if d = CHR 0x60 then bef @ getSubstitution matched bef aft ds
             else if d = CHR 0x27 then aft @ getSubstitution matched bef aft ds
             else c # getSubstitution matched bef aft cs)
      else c # getSubstitution matched bef aft cs)"

text \<open>
  \<open>result.replace(pattern, value)\<close> for a global pattern that matches the literal text
  \<open>pat\<close>: the matches are found from left to right and do not overlap. \<open>pre\<close> is the
  part of the subject already scanned, \<open>s\<close> the rest. An empty pattern matches before
  every unit and at the end.
\<close>

function replace_global :: "string \<Rightarrow> string \<Rightarrow> string \<Rightarrow> string \<Rightarrow> string" where
  "replace_global pat v pre s =
     (if pat = [] then
        (case s of
           [] \<Rightarrow> getSubstitution [] pre [] v
         | c # cs \<Rightarrow> getSubstitution [] pre s v @ c # replace_global pat v (pre @ [c]) cs)
      else if prefix pat s then
        getSubstitution pat pre (drop (length pat) s) v @
        replace_global pat v (pre @ pat) (drop (length pat) s)
      else
        (case s of
           [] \<Rightarrow> []
         | c # cs \<Rightarrow> c # replace_global pat v (pre @ [c]) cs))"
  by pat_completeness auto
termination
proof (relation "measure (\<lambda>(pat, v, pre, s). length s)")
  show "wf (measure (\<lambda>(pat, v, pre, s). length s))" by simp
next
  fix pat v pre s :: string and c cs
  assume "s = c # cs"
  then show "((pat, v, pre @ [c], cs), (pat, v, pre, s)) \<in> measure (\<lambda>(pat, v, pre, s). length s)"
    by simp
next
  fix pat v pre s :: string
  assume "pat \<noteq> []" and "prefix pat s"
  then have "s \<noteq> []" by auto
  with \<open>pat \<noteq> []\<close>
  show "((pat, v, pre @ pat, drop (length pat) s), (pat, v, pre, s))
          \<in> measure (\<lambda>(pat, v, pre, s). length s)"
    by simp
next
  fix pat v pre s :: string and c cs
  assume "s = c # cs"
  then show "((pat, v, pre @ [c], cs), (pat, v, pre, s)) \<in> measure (\<lambda>(pat, v, pre, s). length s)"
    by simp
qed

text \<open>One turn of the loop of \<open>applyTemplate\<close>, for one entry of the object.\<close>

definition apply_entry :: "string \<Rightarrow> string \<times> jval \<Rightarrow> string" where
  "apply_entry result kv =
     (let key = fst kv; rawValue = snd kv
      in if key = [] then result
         else
           (let value = (case rawValue of JNull \<Rightarrow> [] | JStr s \<Rightarrow> s);
                pattern = literal_of_pattern
                            ([backslash, CHR ''{''] @ escapeRegExp key @ [backslash, CHR ''}''])
            in replace_global pattern value [] result))"

definition applyTemplate :: "string \<Rightarrow> recipient \<Rightarrow> string" where
  "applyTemplate template recipient =
     (if template = [] then []
      else
        (case recipient of
           None \<Rightarrow> template
         | Some entries \<Rightarrow> foldl apply_entry template entries))"

text \<open>
  A key is an array index when it is the decimal numeral, without leading zero, of a
  number up to \<open>2^32 - 2\<close>; an object lists such keys first.
\<close>

definition is_digit :: "char \<Rightarrow> bool" where
  "is_digit c \<longleftrightarrow> 48 \<le> (of_char c :: nat) \<and> (of_char c :: nat) \<le> 57"

definition decimal_value :: "string \<Rightarrow> int" where
  "decimal_value s = foldl (\<lambda>a c. 10 * a + ((of_char c :: int) - 48)) 0 s"

definition is_array_index :: "string \<Rightarrow> bool" where
  "is_array_index k \<longleftrightarrow>
     k \<noteq> [] \<and> list_all is_digit k \<and> (k = ''0'' \<or> hd k \<noteq> CHR ''0'') \<and>
     decimal_value k \<le> 4294967294"

text \<open>
  \<open>{ Name: name, ...recipient }\<close>: the property \<open>Name\<close> is created first and the
  recipient's own properties are copied over it, so a key \<open>Name\<close> of the recipient
  replaces the value and keeps the place.
\<close>

definition spread_Name :: "string \<Rightarrow> recipient \<Rightarrow> attrs" where
  "spread_Name name recipient =
     (let entries = (case recipient of None \<Rightarrow> [] | Some es \<Rightarrow> es);
          nameValue = (case map_of entries ''Name'' of None \<Rightarrow> JStr name | Some v \<Rightarrow> v)
      in filter (\<lambda>kv. is_array_index (fst kv)) entries @
         [(''Name'', nameValue)] @
         filter (\<lambda>kv. \<not> is_array_index (fst kv) \<and> fst kv \<noteq> ''Name'') entries)"

section \<open>The delivery client\<close>

definition MAX_RETRIES :: nat where
  "MAX_RETRIES = 3"

record mail =
  mail_from :: "string option"
  mail_to :: string
  mail_subject :: string
  mail_html :: string

text \<open>
  The transport of one request. \<open>verify t n\<close> and \<open>sendMail t n m\<close> answer the call
  number \<open>n\<close> (counted from 0) of \<open>transporter.verify()\<close> and of
  \<open>transporter.sendMail(m)\<close>: \<open>None\<close> when the promise resolves, the error when it
  rejects. The waits between two attempts only take time and are left out.
\<close>

record transport =
  SMTP_USER :: "string option"
  verify :: "nat \<Rightarrow> smtp_error option"
  sendMail :: "nat \<Rightarrow> mail \<Rightarrow> smtp_error option"

text \<open>
  The loop of \<open>verifySmtpWithRetry\<close> from attempt \<open>attempt\<close> on, \<open>calls\<close> calls of
  \<open>verify\<close> having been made: \<open>Inl err\<close> when it throws \<open>err\<close>.
\<close>

function verify_attempts :: "transport \<Rightarrow> nat \<Rightarrow> nat \<Rightarrow> smtp_error + unit" where
  "verify_attempts t attempt calls =
     (if attempt \<le> MAX_RETRIES then
        (case verify t calls of
           None \<Rightarrow> Inr ()
         | Some err \<Rightarrow>
             (let tempAuth = isTemporaryAuthError (Some err);
                  netErr = isNetworkError (Some err)
              in if (tempAuth \<or> netErr) \<and> attempt < MAX_RETRIES
                 then verify_attempts t (Suc attempt) (Suc calls)
                 else Inl err))
      else Inr ())"
  by pat_completeness auto
termination
  by (relation "measure (\<lambda>(t, attempt, calls). Suc MAX_RETRIES - attempt)") auto

definition verifySmtpWithRetry :: "transport \<Rightarrow> smtp_error + unit" where
  "verifySmtpWithRetry t = verify_attempts t 1 0"

datatype status = Pending | Sent | Error

record send_result =
  res_email :: string
  res_status :: status
  res_attempt :: nat
  res_error :: "string option"
  res_reason :: "failure_class option"

text \<open>\<open>err.message || String(err)\<close>.\<close>

definition error_text :: "smtp_error \<Rightarrow> string" where
  "error_text err =
     (case err_message err of
        None \<Rightarrow> err_string err
      | Some m \<Rightarrow> if m = [] then err_string err else m)"

text \<open>
  The retry loop of \<open>sendToRecipientWithRetry\<close> from attempt \<open>attempt\<close> on, with the
  number of calls of \<open>sendMail\<close> made so far; it gives the result and the new number
  of calls. The result is \<open>None\<close> when the loop ends without a \<open>return\<close>.
\<close>

function send_attempts ::
  "transport \<Rightarrow> mail \<Rightarrow> string \<Rightarrow> nat \<Rightarrow> nat \<Rightarrow> send_result option \<times> nat" where
  "send_attempts t mailOptions email attempt calls =
     (if attempt \<le> MAX_RETRIES then
        (case sendMail t calls mailOptions of
           None \<Rightarrow>
             (Some \<lparr>res_email = email, res_status = Sent, res_attempt = attempt,
                    res_error = None, res_reason = None\<rparr>, Suc calls)
         | Some err \<Rightarrow>
             (let tempAuth = isTemporaryAuthError (Some err);
                  netErr = isNetworkError (Some err);
                  retryable = (tempAuth \<or> netErr) \<and> attempt < MAX_RETRIES
              in if retryable
                 then send_attempts t mailOptions email (Suc attempt) (Suc calls)
                 else
                   (Some \<lparr>res_email = email, res_status = Error, res_attempt = attempt,
                          res_error = Some (error_text err),
                          res_reason = Some (reason (Some err))\<rparr>, Suc calls)))
      else (None, calls))"
  by pat_completeness auto
termination
  by (relation "measure (\<lambda>(t, m, email, attempt, calls). Suc MAX_RETRIES - attempt)") auto

text \<open>
  The message \<open>sendToRecipientWithRetry\<close> builds for a recipient (\<open>mailOptions\<close>), from
  the variables \<open>{ Name: name, ...recipient }\<close>.
\<close>

definition mailOptions_of :: "transport \<Rightarrow> recipient \<Rightarrow> string \<Rightarrow> string \<Rightarrow> mail" where
  "mailOptions_of t recipient subjectTemplate htmlBodyTemplate =
     (let email = getField recipient ''Email'' [];
          name = getField recipient ''Name'' ''Candidate'';
          vars = spread_Name name recipient;
          personalizedSubject = applyTemplate subjectTemplate (Some vars);
          personalizedHtml = applyTemplate htmlBodyTemplate (Some vars)
      in \<lparr>mail_from = SMTP_USER t,
          mail_to = email,
          mail_subject =
            (if personalizedSubject = [] then ''No subject'' else personalizedSubject),
          mail_html =
            (if personalizedHtml = [] then ''<p>Dear '' @ name @ '',</p>''
             else personalizedHtml)\<rparr>)"

definition sendToRecipientWithRetry ::
  "transport \<Rightarrow> recipient \<Rightarrow> string \<Rightarrow> string \<Rightarrow> nat \<Rightarrow> send_result option \<times> nat" where
  "sendToRecipientWithRetry t recipient subjectTemplate htmlBodyTemplate calls =
     (let email = getField recipient ''Email'' []
      in if email = [] then
           (Some \<lparr>res_email = [], res_status = Error, res_attempt = 0,
                  res_error = Some ''Missing Email field in recipient row'',
                  res_reason = Some OTHER\<rparr>, calls)
         else
           (let mailOptions = mailOptions_of t recipient subjectTemplate htmlBodyTemplate
            in send_attempts t mailOptions email 1 calls))"

section \<open>The batch ledger\<close>

text \<open>
  The rows of one batch in the tables \<open>batches\<close> and \<open>batch_recipients\<close>; every
  statement of the handler names the batch by its id. The identifiers and the
  time stamps are left out. \<open>r_data\<close> stands for the column \<open>data_json\<close>.
\<close>

datatype batch_status = In_progress | Stopped | Completed

record batch_row =
  b_csv_name :: "string option"
  b_subject :: string
  b_html_body :: string
  b_total :: nat
  b_sent :: nat
  b_failed :: nat
  b_processed :: nat
  b_status :: batch_status
  b_stopped_at :: "nat option"
  b_error :: "string option"

record recipient_row =
  r_idx :: nat
  r_email :: string
  r_name :: string
  r_data :: attrs
  r_status :: status
  r_attempt :: nat
  r_error :: "string option"

text \<open>
  \<open>insertBatch.run\<close>: the columns the statement does not name take the defaults of
  the table (0 for the three counts, \<open>NULL\<close> for \<open>stopped_at\<close> and \<open>error\<close>).
\<close>

definition insertBatch :: "string \<Rightarrow> string \<Rightarrow> nat \<Rightarrow> string option \<Rightarrow> batch_row" where
  "insertBatch subject htmlBody n csvName =
     \<lparr>b_csv_name = csvName, b_subject = subject, b_html_body = htmlBody, b_total = n,
      b_sent = 0, b_failed = 0, b_processed = 0, b_status = In_progress,
      b_stopped_at = None, b_error = None\<rparr>"

definition insertRec :: "nat \<Rightarrow> recipient \<Rightarrow> recipient_row" where
  "insertRec idx rec =
     (let email = getField rec ''Email'' [];
          name = getField rec ''Name'' []
      in \<lparr>r_idx = idx, r_email = email, r_name = name,
          r_data = (case rec of None \<Rightarrow> [] | Some es \<Rightarrow> es),
          r_status = Pending, r_attempt = 0, r_error = None\<rparr>)"

definition updateBatch ::
  "nat \<Rightarrow> nat \<Rightarrow> nat \<Rightarrow> batch_status \<Rightarrow> nat option \<Rightarrow> string option \<Rightarrow> batch_row \<Rightarrow> batch_row" where
  "updateBatch sent failed processed st stopped_at err b =
     b\<lparr>b_sent := sent, b_failed := failed, b_processed := processed, b_status := st,
       b_stopped_at := stopped_at, b_error := err\<rparr>"

definition updateRec ::
  "status \<Rightarrow> nat \<Rightarrow> string option \<Rightarrow> nat \<Rightarrow> recipient_row list \<Rightarrow> recipient_row list" where
  "updateRec st attempt err idx rows =
     map (\<lambda>row. if r_idx row = idx
                then row\<lparr>r_status := st, r_attempt := attempt, r_error := err\<rparr>
                else row) rows"

section \<open>The batch dispatch sequencer\<close>

record loop_state =
  results :: "send_result list"
  stoppedAt :: "nat option"
  sentCount :: nat
  failedCount :: nat
  rows :: "recipient_row list"
  mail_calls :: nat

text \<open>
  The send loop from index \<open>i\<close> on, over the recipients not yet reached. \<open>Inl\<close> is
  the state in which reading \<open>r.status\<close> of a missing result throws.
\<close>

fun send_loop ::
  "transport \<Rightarrow> string \<Rightarrow> string \<Rightarrow> recipient list \<Rightarrow> nat \<Rightarrow> loop_state
     \<Rightarrow> loop_state + loop_state" where
  "send_loop t subject htmlBody [] i st = Inr st"
| "send_loop t subject htmlBody (rcp # rest) i st =
     (case sendToRecipientWithRetry t rcp subject htmlBody (mail_calls st) of
        (None, c) \<Rightarrow> Inl (st\<lparr>mail_calls := c\<rparr>)
      | (Some r, c) \<Rightarrow>
          (let statusForDb = (if res_status r = Sent then Sent else Error);
               st1 = st\<lparr>results := results st @ [r],
                        sentCount := (if res_status r = Sent then Suc (sentCount st)
                                      else sentCount st),
                        failedCount := (if res_status r = Error then Suc (failedCount st)
                                        else failedCount st),
                        rows := updateRec statusForDb (res_attempt r) (res_error r) i (rows st),
                        mail_calls := c\<rparr>
           in if res_status r = Error \<and>
                 (res_reason r = Some NETWORK \<or> res_reason r = Some TEMP_AUTH)
              then Inr (st1\<lparr>stoppedAt := Some i\<rparr>)
              else send_loop t subject htmlBody rest (Suc i) st1))"

text \<open>\<open>!stoppedAt\<close>: true for \<open>null\<close> and for the number 0.\<close>

definition js_not :: "nat option \<Rightarrow> bool" where
  "js_not x = (case x of None \<Rightarrow> True | Some k \<Rightarrow> k = 0)"

record request =
  req_recipients :: "recipient list option"
  req_subject :: string
  req_htmlBody :: string
  req_csvName :: "string option"

record summary =
  s_sent :: nat
  s_failed :: nat
  s_total :: nat
  s_processed :: nat
  s_stoppedAt :: "nat option"
  s_results :: "send_result list"

datatype response =
    Bad_Request string
  | Server_Error string "string option" "string option"
  | Ok_Json summary
  | No_Response

record ledger =
  batch :: batch_row
  recipients :: "recipient_row list"

record outcome =
  out_ledger :: "ledger option"
  out_response :: response
  out_sends :: nat

text \<open>
  The handler of \<open>POST /api/send-emails\<close>. \<open>req_recipients\<close> is \<open>None\<close> when the
  body's \<open>recipients\<close> is no array; a missing subject or body is the empty string,
  which the handler refuses in the same way.
\<close>

definition send_emails :: "transport \<Rightarrow> request \<Rightarrow> outcome" where
  "send_emails t req =
     (case req_recipients req of
        None \<Rightarrow>
          \<lparr>out_ledger = None,
           out_response = Bad_Request ''recipients must be a non-empty array'',
           out_sends = 0\<rparr>
      | Some rcps \<Rightarrow>
          if rcps = [] then
            \<lparr>out_ledger = None,
             out_response = Bad_Request ''recipients must be a non-empty array'',
             out_sends = 0\<rparr>
          else if req_subject req = [] \<or> req_htmlBody req = [] then
            \<lparr>out_ledger = None,
             out_response = Bad_Request ''subject and htmlBody are required'',
             out_sends = 0\<rparr>
          else
            (let subject = req_subject req;
                 htmlBody = req_htmlBody req;
                 csvName = (case req_csvName req of
                              None \<Rightarrow> None
                            | Some n \<Rightarrow> if n = [] then None else Some n);
                 b0 = insertBatch subject htmlBody (length rcps) csvName;
                 rows0 = map (\<lambda>(idx, rec). insertRec idx rec) (enumerate 0 rcps)
             in case verifySmtpWithRetry t of
                  Inl err \<Rightarrow>
                    \<lparr>out_ledger =
                       Some \<lparr>batch = updateBatch 0 0 0 Stopped None
                                       (Some (''SMTP verify failed: '' @ error_text err)) b0,
                             recipients = rows0\<rparr>,
                     out_response =
                       Server_Error ''SMTP connection failed'' (err_message err) (err_code err),
                     out_sends = 0\<rparr>
                | Inr u \<Rightarrow>
                    (let total = length rcps
                     in case send_loop t subject htmlBody rcps 0
                               \<lparr>results = [], stoppedAt = None, sentCount = 0,
                                failedCount = 0, rows = rows0, mail_calls = 0\<rparr> of
                          Inl st \<Rightarrow>
                            \<lparr>out_ledger = Some \<lparr>batch = b0, recipients = rows st\<rparr>,
                             out_response = No_Response,
                             out_sends = mail_calls st\<rparr>
                        | Inr st \<Rightarrow>
                            (let processed = length (results st);
                                 finalStatus =
                                   (if processed = total \<and> js_not (stoppedAt st)
                                    then Completed else Stopped)
                             in \<lparr>out_ledger =
                                   Some \<lparr>batch = updateBatch (sentCount st) (failedCount st)
                                                   processed finalStatus (stoppedAt st) None b0,
                                         recipients = rows st\<rparr>,
                                 out_response =
                                   Ok_Json \<lparr>s_sent = sentCount st, s_failed = failedCount st,
                                            s_total = total, s_processed = processed,
                                            s_stoppedAt = stoppedAt st,
                                            s_results = results st\<rparr>,
                                 out_sends = mail_calls st\<rparr>))))"

section \<open>The document renderer and the archive\<close>

text \<open>
  The headless browser of one request: whether \<open>puppeteer.launch\<close> succeeds, and
  what the call number \<open>n\<close> of \<open>page.setContent\<close> and \<open>page.pdf\<close> gives for a
  document (\<open>None\<close> when one of them throws).
\<close>

record renderer =
  launch :: bool
  pdf :: "nat \<Rightarrow> string \<Rightarrow> string option"

definition newline :: string where
  "newline = [CHR 0x0A]"

definition dquote :: string where
  "dquote = [CHR 0x22]"

definition full_html :: "string \<Rightarrow> string \<Rightarrow> string" where
  "full_html personalizedSubject personalizedHtml =
     (if includes_str (toLowerCase personalizedHtml) ''<html'' then personalizedHtml
      else
        ''<!DOCTYPE html>'' @ newline @
        ''<html>'' @ newline @
        ''  <head>'' @ newline @
        ''    <meta charset='' @ dquote @ ''utf-8'' @ dquote @ '' />'' @ newline @
        ''    <title>'' @ personalizedSubject @ ''</title>'' @ newline @
        ''    <style>'' @ newline @
        ''      body {'' @ newline @
        ''        font-family: Arial, sans-serif;'' @ newline @
        ''        font-size: 14px;'' @ newline @
        ''        line-height: 1.5;'' @ newline @
        ''        margin: 24px;'' @ newline @
        ''      }'' @ newline @
        ''    </style>'' @ newline @
        ''  </head>'' @ newline @
        ''  <body>'' @ newline @
        ''    '' @ personalizedHtml @ newline @
        ''  </body>'' @ newline @
        ''</html>'')"

text \<open>
  The characters the pattern \<open>/[^a-z0-9@._-]/gi\<close> leaves alone: the ASCII letters of
  both cases, the digits and \<open>@ . _ -\<close>.
\<close>

definition safe_char :: "char \<Rightarrow> bool" where
  "safe_char c \<longleftrightarrow>
     (let n = (of_char c :: nat)
      in (97 \<le> n \<and> n \<le> 122) \<or> (65 \<le> n \<and> n \<le> 90) \<or> (48 \<le> n \<and> n \<le> 57) \<or>
         c \<in> set ''@._-'')"

definition safeEmail :: "string \<Rightarrow> string" where
  "safeEmail email = map (\<lambda>c. if safe_char c then c else CHR ''_'') email"

definition pdf_filename :: "string \<Rightarrow> string" where
  "pdf_filename email =
     (let safe = safeEmail email
      in (if safe = [] then ''recipient'' else safe) @ ''.pdf'')"

text \<open>
  The loop of \<open>POST /api/email-pdfs\<close> over the recipients, \<open>n\<close> documents having been
  rendered: the list \<open>pdfFiles\<close> of file names and buffers, or \<open>None\<close> when the
  renderer throws.
\<close>

fun render_all ::
  "renderer \<Rightarrow> string \<Rightarrow> string \<Rightarrow> recipient list \<Rightarrow> nat \<Rightarrow> (string \<times> string) list option" where
  "render_all r subject htmlBody [] n = Some []"
| "render_all r subject htmlBody (recipient # rest) n =
     (let email = getField recipient ''Email'' ''unknown'';
          name = getField recipient ''Name'' ''Candidate'';
          vars = spread_Name name recipient;
          personalizedSubject = applyTemplate subject (Some vars);
          personalizedHtml = applyTemplate htmlBody (Some vars);
          fullHtml = full_html personalizedSubject personalizedHtml
      in case pdf r n fullHtml of
           None \<Rightarrow> None
         | Some pdfBuffer \<Rightarrow>
             (case render_all r subject htmlBody rest (Suc n) of
                None \<Rightarrow> None
              | Some files \<Rightarrow> Some ((pdf_filename email, pdfBuffer) # files)))"

text \<open>
  The answer of \<open>POST /api/email-pdfs\<close>: \<open>Zip\<close> carries the entries appended to
  the archive, in the order of the calls of \<open>archive.append\<close>.
\<close>

datatype pdf_response =
    Pdf_Bad_Request string
  | Pdf_Failed string
  | Zip "(string \<times> string) list"

definition email_pdfs :: "renderer \<Rightarrow> request \<Rightarrow> pdf_response" where
  "email_pdfs r req =
     (case req_recipients req of
        None \<Rightarrow> Pdf_Bad_Request ''recipients must be a non-empty array''
      | Some rcps \<Rightarrow>
          if rcps = [] then Pdf_Bad_Request ''recipients must be a non-empty array''
          else if req_subject req = [] \<or> req_htmlBody req = []
          then Pdf_Bad_Request ''subject and htmlBody are required''
          else if \<not> launch r then Pdf_Failed ''PDF generation failed''
          else
            (case render_all r (req_subject req) (req_htmlBody req) rcps 0 of
               None \<Rightarrow> Pdf_Failed ''PDF generation failed''
             | Some pdfFiles \<Rightarrow> Zip pdfFiles))"

section \<open>Concrete inputs\<close>

text \<open>Errors, transports and requests on which the theorems below are exercised.\<close>

definition econnreset :: smtp_error where
  "econnreset =
     \<lparr>err_responseCode = None, err_code = Some ''ECONNRESET'',
      err_message = Some ''read ECONNRESET'', err_response = None,
      err_string = ''Error: read ECONNRESET''\<rparr>"

definition auth_454 :: smtp_error where
  "auth_454 =
     \<lparr>err_responseCode = None, err_code = Some ''EAUTH'',
      err_message = Some ''Invalid login'',
      err_response = Some ''454 4.7.0 Temporary Authentication Failure'',
      err_string = ''Error: Invalid login''\<rparr>"

definition rejected :: smtp_error where
  "rejected =
     \<lparr>err_responseCode = Some 550, err_code = Some ''EENVELOPE'',
      err_message = Some ''No recipients defined'', err_response = None,
      err_string = ''Error: No recipients defined''\<rparr>"

definition transport_ok :: transport where
  "transport_ok =
     \<lparr>SMTP_USER = Some ''me@x.com'', verify = (\<lambda>n. None), sendMail = (\<lambda>n m. None)\<rparr>"

definition transport_b_resets :: transport where
  "transport_b_resets =
     \<lparr>SMTP_USER = Some ''me@x.com'', verify = (\<lambda>n. None),
      sendMail = (\<lambda>n m. if mail_to m = ''b@x.com'' then Some econnreset else None)\<rparr>"

definition transport_resets :: transport where
  "transport_resets =
     \<lparr>SMTP_USER = Some ''me@x.com'', verify = (\<lambda>n. None),
      sendMail = (\<lambda>n m. Some econnreset)\<rparr>"

definition transport_down :: transport where
  "transport_down =
     \<lparr>SMTP_USER = Some ''me@x.com'', verify = (\<lambda>n. Some econnreset),
      sendMail = (\<lambda>n m. None)\<rparr>"

definition request_of :: "recipient list \<Rightarrow> request" where
  "request_of rcps =
     \<lparr>req_recipients = Some rcps, req_subject = ''Hi {Name}'',
      req_htmlBody = ''<p>Dear {Name}</p>'', req_csvName = Some ''list.csv''\<rparr>"

definition with_email :: "string \<Rightarrow> recipient" where
  "with_email e = Some [(''Email'', JStr e)]"

section \<open>Properties of the classifier\<close>

lemma includes_toLowerCase:
  assumes "includes_str s p" and "toLowerCase p = p"
  shows "includes_str (toLowerCase s) p"
proof -
  from assms(1) have "sublist (map toLowerCase_char p) (map toLowerCase_char s)"
    unfolding includes_str_def by (rule map_mono_sublist)
  with assms(2) show ?thesis
    by (simp add: includes_str_def toLowerCase_def)
qed

lemma lower_454: "toLowerCase ''454 4.7.0'' = ''454 4.7.0''"
  by code_simp

lemma upper_ECONNRESET: "toUpperCase ''ECONNRESET'' \<in> set network_codes"
  by code_simp

lemma tempAuth_of_message:
  assumes "includes_str (str_or_empty (err_message e)) ''454 4.7.0''"
  shows "isTemporaryAuthError (Some e)"
  using includes_toLowerCase [OF assms lower_454]
  by (simp add: isTemporaryAuthError_def Let_def)

lemma tempAuth_of_response:
  assumes "includes_str (str_or_empty (err_response e)) ''454 4.7.0''"
  shows "isTemporaryAuthError (Some e)"
  using includes_toLowerCase [OF assms lower_454]
  by (simp add: isTemporaryAuthError_def Let_def)

lemma network_of_ECONNRESET:
  assumes "err_code e = Some ''ECONNRESET''"
  shows "isNetworkError (Some e)"
  using assms upper_ECONNRESET
  by (simp add: isNetworkError_def Let_def str_or_empty_def)

text \<open>
  C5. The classifier is a total function of the error, so every error has exactly one
  class. The temporary-authentication rule is tried first: the class is \<open>TEMP_AUTH\<close>
  exactly when that rule matches, \<open>NETWORK\<close> exactly when it does not and the network
  rule matches, and \<open>OTHER\<close> exactly when neither rule matches. An error with code
  \<open>ECONNRESET\<close> that is no temporary-authentication error is \<open>NETWORK\<close>; an error whose
  message or response text holds \<open>454 4.7.0\<close> is \<open>TEMP_AUTH\<close>, whatever the letter case
  of the text around it (both texts are lower-cased before the search, and the searched
  words hold no letter).
\<close>

theorem classifier_total_ordered:
  "(reason err = TEMP_AUTH \<longleftrightarrow> isTemporaryAuthError err) \<and>
   (reason err = NETWORK \<longleftrightarrow> \<not> isTemporaryAuthError err \<and> isNetworkError err) \<and>
   (reason err = OTHER \<longleftrightarrow> \<not> isTemporaryAuthError err \<and> \<not> isNetworkError err) \<and>
   (err_code e = Some ''ECONNRESET'' \<and> \<not> isTemporaryAuthError (Some e)
      \<longrightarrow> reason (Some e) = NETWORK) \<and>
   (includes_str (str_or_empty (err_message e)) ''454 4.7.0'' \<or>
    includes_str (str_or_empty (err_response e)) ''454 4.7.0''
      \<longrightarrow> reason (Some e) = TEMP_AUTH) \<and>
   (includes_str (toLowerCase (str_or_empty (err_message e))) ''temporary authentication failure''
      \<longrightarrow> reason (Some e) = TEMP_AUTH)"
proof -
  have a: "reason err = TEMP_AUTH \<longleftrightarrow> isTemporaryAuthError err"
    by (simp add: reason_def Let_def)
  have b: "reason err = NETWORK \<longleftrightarrow> \<not> isTemporaryAuthError err \<and> isNetworkError err"
    by (simp add: reason_def Let_def)
  have c: "reason err = OTHER \<longleftrightarrow> \<not> isTemporaryAuthError err \<and> \<not> isNetworkError err"
    by (simp add: reason_def Let_def)
  have d: "err_code e = Some ''ECONNRESET'' \<and> \<not> isTemporaryAuthError (Some e)
      \<longrightarrow> reason (Some e) = NETWORK"
    using network_of_ECONNRESET [of e] by (simp add: reason_def Let_def)
  have f: "includes_str (str_or_empty (err_message e)) ''454 4.7.0'' \<or>
      includes_str (str_or_empty (err_response e)) ''454 4.7.0''
      \<longrightarrow> reason (Some e) = TEMP_AUTH"
    using tempAuth_of_message [of e] tempAuth_of_response [of e]
    by (auto simp add: reason_def Let_def)
  have g: "includes_str (toLowerCase (str_or_empty (err_message e))) ''temporary authentication failure''
      \<longrightarrow> reason (Some e) = TEMP_AUTH"
    by (simp add: reason_def isTemporaryAuthError_def Let_def)
  from a b c d f g show ?thesis by blast
qed

theorem classifier_total_ordered_witness:
  "err_code econnreset = Some ''ECONNRESET'' \<and>
   \<not> isTemporaryAuthError (Some econnreset) \<and>
   reason (Some econnreset) = NETWORK \<and>
   includes_str (str_or_empty (err_response auth_454)) ''454 4.7.0'' \<and>
   reason (Some auth_454) = TEMP_AUTH \<and>
   \<not> isTemporaryAuthError (Some rejected) \<and> \<not> isNetworkError (Some rejected) \<and>
   reason (Some rejected) = OTHER"
proof -
  have h1: "err_code econnreset = Some ''ECONNRESET''"
    by (simp add: econnreset_def)
  have h2: "\<not> isTemporaryAuthError (Some econnreset)"
    by code_simp
  have h3: "includes_str (str_or_empty (err_response auth_454)) ''454 4.7.0''"
    by code_simp
  have h4: "\<not> isTemporaryAuthError (Some rejected)"
    by code_simp
  have h5: "\<not> isNetworkError (Some rejected)"
    by code_simp
  from h1 h2 h3 h4 h5
    classifier_total_ordered [of "Some econnreset" econnreset]
    classifier_total_ordered [of "Some auth_454" auth_454]
    classifier_total_ordered [of "Some rejected" rejected]
  show ?thesis by blast
qed

section \<open>Properties of the delivery client and of the send loop\<close>

definition stopping :: "send_result \<Rightarrow> bool" where
  "stopping r \<longleftrightarrow>
     res_status r = Error \<and> (res_reason r = Some NETWORK \<or> res_reason r = Some TEMP_AUTH)"

definition row_update :: "send_result \<Rightarrow> recipient_row \<Rightarrow> recipient_row" where
  "row_update r row =
     row\<lparr>r_status := (if res_status r = Sent then Sent else Error),
         r_attempt := res_attempt r, r_error := res_error r\<rparr>"

definition record_result :: "loop_state \<Rightarrow> send_result \<Rightarrow> nat \<Rightarrow> nat \<Rightarrow> loop_state" where
  "record_result st r c i =
     st\<lparr>results := results st @ [r],
        sentCount := (if res_status r = Sent then Suc (sentCount st) else sentCount st),
        failedCount := (if res_status r = Error then Suc (failedCount st) else failedCount st),
        rows := updateRec (if res_status r = Sent then Sent else Error) (res_attempt r)
                  (res_error r) i (rows st),
        mail_calls := c\<rparr>"

definition missing_email_result :: send_result where
  "missing_email_result =
     \<lparr>res_email = [], res_status = Error, res_attempt = 0,
      res_error = Some ''Missing Email field in recipient row'',
      res_reason = Some OTHER\<rparr>"

lemma send_attempts_returns:
  "1 \<le> attempt \<Longrightarrow> attempt \<le> MAX_RETRIES \<Longrightarrow>
   \<exists>r c. send_attempts t m e attempt calls = (Some r, c) \<and>
     attempt \<le> res_attempt r \<and> res_attempt r \<le> MAX_RETRIES \<and>
     res_email r = e \<and>
     calls < c \<and> c = calls + (res_attempt r - attempt) + 1 \<and>
     (res_status r = Sent \<and> res_error r = None \<and> res_reason r = None \<or>
      res_status r = Error \<and> res_error r \<noteq> None \<and> res_reason r \<noteq> None)"
proof (induction t m e attempt calls rule: send_attempts.induct)
  case (1 t m e attempt calls)
  show ?case
  proof (cases "sendMail t calls m")
    case None
    with "1.prems" show ?thesis
      by (subst send_attempts.simps) simp
  next
    case (Some err)
    show ?thesis
    proof (cases "(isTemporaryAuthError (Some err) \<or> isNetworkError (Some err)) \<and> attempt < MAX_RETRIES")
      case True
      with "1.prems" have "1 \<le> Suc attempt" "Suc attempt \<le> MAX_RETRIES" by simp_all
      from "1.IH" [OF "1.prems"(2) Some refl refl refl _ this] True
      obtain r c where rc: "send_attempts t m e (Suc attempt) (Suc calls) = (Some r, c)"
        "Suc attempt \<le> res_attempt r" "res_attempt r \<le> MAX_RETRIES" "res_email r = e"
        "Suc calls < c" "c = Suc calls + (res_attempt r - Suc attempt) + 1"
        "(res_status r = Sent \<and> res_error r = None \<and> res_reason r = None \<or>
          res_status r = Error \<and> res_error r \<noteq> None \<and> res_reason r \<noteq> None)"
        by auto
      have "send_attempts t m e attempt calls = send_attempts t m e (Suc attempt) (Suc calls)"
        using True Some "1.prems" by (subst send_attempts.simps) simp
      with rc show ?thesis by auto
    next
      case False
      with Some "1.prems" show ?thesis
        by (subst send_attempts.simps) (auto simp: Let_def)
    qed
  qed
qed


lemma sendToRecipient_missing:
  "getField rcp ''Email'' [] = [] \<Longrightarrow>
   sendToRecipientWithRetry t rcp s h c = (Some missing_email_result, c)"
  by (simp add: sendToRecipientWithRetry_def missing_email_result_def Let_def)

lemma sendToRecipient_present:
  assumes "getField rcp ''Email'' [] \<noteq> []"
  shows "\<exists>r c'. sendToRecipientWithRetry t rcp s h c = (Some r, c') \<and>
     1 \<le> res_attempt r \<and> res_attempt r \<le> MAX_RETRIES \<and>
     res_email r = getField rcp ''Email'' [] \<and>
     c' = c + res_attempt r \<and>
     (res_status r = Sent \<and> res_error r = None \<and> res_reason r = None \<or>
      res_status r = Error \<and> res_error r \<noteq> None \<and> res_reason r \<noteq> None)"
proof -
  have m: "(1::nat) \<le> MAX_RETRIES" by (simp add: MAX_RETRIES_def)
  obtain mo where eq: "sendToRecipientWithRetry t rcp s h c =
      send_attempts t mo (getField rcp ''Email'' []) 1 c"
    using assms by (simp add: sendToRecipientWithRetry_def Let_def)
  from send_attempts_returns [OF order_refl m, of t mo "getField rcp ''Email'' []" c]
  obtain r c' where "send_attempts t mo (getField rcp ''Email'' []) 1 c = (Some r, c')"
    "1 \<le> res_attempt r" "res_attempt r \<le> MAX_RETRIES"
    "res_email r = getField rcp ''Email'' []" "c' = c + (res_attempt r - 1) + 1"
    "(res_status r = Sent \<and> res_error r = None \<and> res_reason r = None \<or>
      res_status r = Error \<and> res_error r \<noteq> None \<and> res_reason r \<noteq> None)"
    by blast
  with eq show ?thesis by auto
qed

lemma sendToRecipient_returns:
  "\<exists>r c'. sendToRecipientWithRetry t rcp s h c = (Some r, c') \<and>
     (res_status r = Sent \<or> res_status r = Error)"
proof (cases "getField rcp ''Email'' [] = []")
  case True
  then show ?thesis
    by (simp add: sendToRecipient_missing missing_email_result_def)
next
  case False
  from sendToRecipient_present [OF this, of t s h c] show ?thesis by blast
qed

lemma send_loop_Cons:
  assumes "sendToRecipientWithRetry t rcp s h (mail_calls st) = (Some r, c)"
  shows "send_loop t s h (rcp # rest) i st =
     (if stopping r then Inr ((record_result st r c i)\<lparr>stoppedAt := Some i\<rparr>)
      else send_loop t s h rest (Suc i) (record_result st r c i))"
  using assms
  by (auto simp add: Let_def stopping_def record_result_def)


lemma record_result_simps:
  "results (record_result st r c i) = results st @ [r]"
  "stoppedAt (record_result st r c i) = stoppedAt st"
  "mail_calls (record_result st r c i) = c"
  "sentCount (record_result st r c i) =
     (if res_status r = Sent then Suc (sentCount st) else sentCount st)"
  "failedCount (record_result st r c i) =
     (if res_status r = Error then Suc (failedCount st) else failedCount st)"
  "rows (record_result st r c i) =
     updateRec (if res_status r = Sent then Sent else Error) (res_attempt r) (res_error r) i (rows st)"
  by (simp_all add: record_result_def)

text \<open>The loop always ends normally.\<close>

lemma send_loop_returns:
  "\<exists>st'. send_loop t s h rcps i st = Inr st'"
proof (induction rcps arbitrary: i st)
  case Nil
  show ?case by simp
next
  case (Cons rcp rest)
  from sendToRecipient_returns [of t rcp s h "mail_calls st"]
  obtain r c where rc: "sendToRecipientWithRetry t rcp s h (mail_calls st) = (Some r, c)"
    by blast
  show ?case
    using Cons.IH [of "Suc i" "record_result st r c i"]
    by (simp only: send_loop_Cons [OF rc]) (simp split: if_splits)
qed

text \<open>The results grow at the end; the counts follow the results.\<close>

definition counted :: "loop_state \<Rightarrow> bool" where
  "counted st \<longleftrightarrow>
     sentCount st = length (filter (\<lambda>r. res_status r = Sent) (results st)) \<and>
     failedCount st = length (filter (\<lambda>r. res_status r = Error) (results st)) \<and>
     list_all (\<lambda>r. res_status r = Sent \<or> res_status r = Error) (results st)"

lemma send_loop_counted:
  "counted st \<Longrightarrow> send_loop t s h rcps i st = Inr st' \<Longrightarrow> counted st'"
proof (induction rcps arbitrary: i st)
  case Nil
  then show ?case by simp
next
  case (Cons rcp rest)
  from sendToRecipient_returns [of t rcp s h "mail_calls st"]
  obtain r c where rc: "sendToRecipientWithRetry t rcp s h (mail_calls st) = (Some r, c)"
    and st: "res_status r = Sent \<or> res_status r = Error"
    by blast
  have c1: "counted (record_result st r c i)"
    using Cons.prems(1) st by (auto simp: counted_def record_result_simps)
  show ?case
  proof (cases "stopping r")
    case True
    with Cons.prems(2) have "st' = (record_result st r c i)\<lparr>stoppedAt := Some i\<rparr>"
      by (simp add: send_loop_Cons [OF rc] del: send_loop.simps)
    with c1 show ?thesis by (simp add: counted_def)
  next
    case False
    with Cons.prems(2) have "send_loop t s h rest (Suc i) (record_result st r c i) = Inr st'"
      by (simp add: send_loop_Cons [OF rc] del: send_loop.simps)
    from Cons.IH [OF c1 this] show ?thesis .
  qed
qed

lemma counted_sum:
  "counted st \<Longrightarrow> sentCount st + failedCount st = length (results st)"
proof -
  have "list_all (\<lambda>r. res_status r = Sent \<or> res_status r = Error) xs \<Longrightarrow>
      length (filter (\<lambda>r. res_status r = Sent) xs) +
      length (filter (\<lambda>r. res_status r = Error) xs) = length xs" for xs :: "send_result list"
    by (induction xs) auto
  then show "counted st \<Longrightarrow> sentCount st + failedCount st = length (results st)"
    by (simp add: counted_def)
qed

text \<open>Where the loop stops.\<close>

lemma send_loop_stop:
  assumes "send_loop t s h rcps i st = Inr st'"
    and "length (results st) = i" and "stoppedAt st = None"
    and "list_all (\<lambda>r. \<not> stopping r) (results st)"
  shows "prefix (results st) (results st') \<and>
    (stoppedAt st' = None \<and> length (results st') = i + length rcps \<and>
       list_all (\<lambda>r. \<not> stopping r) (results st') \<or>
     (\<exists>k. stoppedAt st' = Some k \<and> i \<le> k \<and> k < i + length rcps \<and>
          length (results st') = Suc k \<and> stopping (results st' ! k) \<and>
          list_all (\<lambda>r. \<not> stopping r) (take k (results st'))))"
  using assms
proof (induction rcps arbitrary: i st)
  case Nil
  then show ?case by simp
next
  case (Cons rcp rest)
  from sendToRecipient_returns [of t rcp s h "mail_calls st"]
  obtain r c where rc: "sendToRecipientWithRetry t rcp s h (mail_calls st) = (Some r, c)"
    by blast
  let ?st1 = "record_result st r c i"
  show ?case
  proof (cases "stopping r")
    case True
    with Cons.prems(1) have st': "st' = ?st1\<lparr>stoppedAt := Some i\<rparr>"
      by (simp add: send_loop_Cons [OF rc] del: send_loop.simps)
    have "results st' = results st @ [r]" "stoppedAt st' = Some i"
      by (simp_all add: st' record_result_simps)
    with Cons.prems(2,4) True show ?thesis
      by (auto simp: nth_append)
  next
    case False
    with Cons.prems(1) have run: "send_loop t s h rest (Suc i) ?st1 = Inr st'"
      by (simp add: send_loop_Cons [OF rc] del: send_loop.simps)
    have p2: "length (results ?st1) = Suc i"
      using Cons.prems(2) by (simp add: record_result_simps)
    have p3: "stoppedAt ?st1 = None"
      using Cons.prems(3) by (simp add: record_result_simps)
    have p4: "list_all (\<lambda>r. \<not> stopping r) (results ?st1)"
      using Cons.prems(4) False by (simp add: record_result_simps)
    from Cons.IH [OF run p2 p3 p4]
    have ih: "prefix (results ?st1) (results st')"
      "(stoppedAt st' = None \<and> length (results st') = Suc i + length rest \<and>
         list_all (\<lambda>r. \<not> stopping r) (results st') \<or>
       (\<exists>k. stoppedAt st' = Some k \<and> Suc i \<le> k \<and> k < Suc i + length rest \<and>
          length (results st') = Suc k \<and> stopping (results st' ! k) \<and>
          list_all (\<lambda>r. \<not> stopping r) (take k (results st'))))"
      by simp_all
    from ih(1) have "prefix (results st) (results st')"
      by (auto simp: record_result_simps prefix_def)
    moreover from ih(2) have
      "(stoppedAt st' = None \<and> length (results st') = i + length (rcp # rest) \<and>
         list_all (\<lambda>r. \<not> stopping r) (results st') \<or>
       (\<exists>k. stoppedAt st' = Some k \<and> i \<le> k \<and> k < i + length (rcp # rest) \<and>
          length (results st') = Suc k \<and> stopping (results st' ! k) \<and>
          list_all (\<lambda>r. \<not> stopping r) (take k (results st'))))"
      by auto
    ultimately show ?thesis by blast
  qed
qed


lemma send_loop_prefix:
  "send_loop t s h rcps i st = Inr st' \<Longrightarrow>
   prefix (results st) (results st') \<and> length (results st') \<le> length (results st) + length rcps"
proof (induction rcps arbitrary: i st)
  case Nil
  then show ?case by simp
next
  case (Cons rcp rest)
  from sendToRecipient_returns [of t rcp s h "mail_calls st"]
  obtain r c where rc: "sendToRecipientWithRetry t rcp s h (mail_calls st) = (Some r, c)"
    by blast
  show ?case
  proof (cases "stopping r")
    case True
    with Cons.prems have "st' = (record_result st r c i)\<lparr>stoppedAt := Some i\<rparr>"
      by (simp add: send_loop_Cons [OF rc] del: send_loop.simps)
    then show ?thesis by (simp add: record_result_simps)
  next
    case False
    with Cons.prems have "send_loop t s h rest (Suc i) (record_result st r c i) = Inr st'"
      by (simp add: send_loop_Cons [OF rc] del: send_loop.simps)
    from Cons.IH [OF this] show ?thesis
      by (auto simp: record_result_simps prefix_def)
  qed
qed

lemma updateRec_map:
  "updateRec (if res_status r = Sent then Sent else Error) (res_attempt r) (res_error r) i rws =
   map (\<lambda>row. if r_idx row = i then row_update r row else row) rws"
  by (simp add: updateRec_def row_update_def)

lemma r_idx_row_update [simp]: "r_idx (row_update r row) = r_idx row"
  by (simp add: row_update_def)

lemma send_loop_rows:
  assumes "send_loop t s h rcps i st = Inr st'" and "length (results st) = i"
  shows "rows st' =
     map (\<lambda>row. if i \<le> r_idx row \<and> r_idx row < length (results st')
                then row_update (results st' ! r_idx row) row else row) (rows st)"
  using assms
proof (induction rcps arbitrary: i st)
  case Nil
  then have eq: "st' = st" and len: "length (results st') = i" by auto
  have "(if i \<le> r_idx row \<and> r_idx row < length (results st')
         then row_update (results st' ! r_idx row) row else row) = row" for row
    using len by auto
  then show ?case by (simp add: eq)
next
  case (Cons rcp rest)
  from sendToRecipient_returns [of t rcp s h "mail_calls st"]
  obtain r c where rc: "sendToRecipientWithRetry t rcp s h (mail_calls st) = (Some r, c)"
    by blast
  let ?st1 = "record_result st r c i"
  have rows1: "rows ?st1 = map (\<lambda>row. if r_idx row = i then row_update r row else row) (rows st)"
    by (simp add: record_result_simps updateRec_map)
  show ?case
  proof (cases "stopping r")
    case True
    with Cons.prems(1) have st': "st' = ?st1\<lparr>stoppedAt := Some i\<rparr>"
      by (simp add: send_loop_Cons [OF rc] del: send_loop.simps)
    have res: "results st' = results st @ [r]" and rw: "rows st' = rows ?st1"
      by (simp_all add: st' record_result_simps)
    have "(if i \<le> r_idx row \<and> r_idx row < length (results st')
           then row_update (results st' ! r_idx row) row else row) =
          (if r_idx row = i then row_update r row else row)" for row
      using Cons.prems(2) by (auto simp: res nth_append)
    then show ?thesis by (simp add: rw rows1)
  next
    case False
    with Cons.prems(1) have run: "send_loop t s h rest (Suc i) ?st1 = Inr st'"
      by (simp add: send_loop_Cons [OF rc] del: send_loop.simps)
    have len1: "length (results ?st1) = Suc i"
      using Cons.prems(2) by (simp add: record_result_simps)
    from send_loop_prefix [OF run] have "prefix (results st @ [r]) (results st')"
      by (simp add: record_result_simps)
    then obtain zs where res: "results st' = results st @ [r] @ zs"
      by (auto simp: prefix_def)
    have at_i: "results st' ! i = r" and gt: "i < length (results st')"
      using Cons.prems(2) by (simp_all add: res nth_append)
    have comb: "(if Suc i \<le> r_idx (if r_idx row = i then row_update r row else row) \<and>
              r_idx (if r_idx row = i then row_update r row else row) < length (results st')
           then row_update (results st' ! r_idx (if r_idx row = i then row_update r row else row))
                  (if r_idx row = i then row_update r row else row)
           else (if r_idx row = i then row_update r row else row)) =
          (if i \<le> r_idx row \<and> r_idx row < length (results st')
           then row_update (results st' ! r_idx row) row else row)" for row
      using at_i gt by auto
    from Cons.IH [OF run len1] show ?thesis
      by (simp add: rows1 comp_def comb)
  qed
qed

lemma send_loop_results:
  assumes "send_loop t s h rcps i st = Inr st'" and "length (results st) = i"
  shows "\<forall>j. i \<le> j \<and> j < length (results st') \<longrightarrow>
     (\<exists>c c'. sendToRecipientWithRetry t (rcps ! (j - i)) s h c = (Some (results st' ! j), c'))"
  using assms
proof (induction rcps arbitrary: i st)
  case Nil
  then show ?case by auto
next
  case (Cons rcp rest)
  from sendToRecipient_returns [of t rcp s h "mail_calls st"]
  obtain r c where rc: "sendToRecipientWithRetry t rcp s h (mail_calls st) = (Some r, c)"
    by blast
  let ?st1 = "record_result st r c i"
  show ?case
  proof (cases "stopping r")
    case True
    with Cons.prems(1) have st': "st' = ?st1\<lparr>stoppedAt := Some i\<rparr>"
      by (simp add: send_loop_Cons [OF rc] del: send_loop.simps)
    have res: "results st' = results st @ [r]"
      by (simp add: st' record_result_simps)
    show ?thesis
    proof (intro allI impI)
      fix j assume "i \<le> j \<and> j < length (results st')"
      with Cons.prems(2) have "j = i" by (simp add: res)
      with rc Cons.prems(2) show "\<exists>c c'. sendToRecipientWithRetry t ((rcp # rest) ! (j - i)) s h c =
          (Some (results st' ! j), c')"
        by (auto simp: res nth_append)
    qed
  next
    case False
    with Cons.prems(1) have run: "send_loop t s h rest (Suc i) ?st1 = Inr st'"
      by (simp add: send_loop_Cons [OF rc] del: send_loop.simps)
    have len1: "length (results ?st1) = Suc i"
      using Cons.prems(2) by (simp add: record_result_simps)
    from send_loop_prefix [OF run] have "prefix (results st @ [r]) (results st')"
      by (simp add: record_result_simps)
    then obtain zs where res: "results st' = results st @ [r] @ zs"
      by (auto simp: prefix_def)
    have at_i: "results st' ! i = r"
      using Cons.prems(2) by (simp add: res nth_append)
    note ih = Cons.IH [OF run len1]
    show ?thesis
    proof (intro allI impI)
      fix j assume j: "i \<le> j \<and> j < length (results st')"
      show "\<exists>c c'. sendToRecipientWithRetry t ((rcp # rest) ! (j - i)) s h c =
          (Some (results st' ! j), c')"
      proof (cases "j = i")
        case True
        with rc at_i show ?thesis by auto
      next
        case False
        with j have "Suc i \<le> j \<and> j < length (results st')" by simp
        with ih obtain c0 c1 where
          "sendToRecipientWithRetry t (rest ! (j - Suc i)) s h c0 = (Some (results st' ! j), c1)"
          by blast
        moreover from False j have "(rcp # rest) ! (j - i) = rest ! (j - Suc i)"
          by (simp add: nth_Cons')
        ultimately show ?thesis by auto
      qed
    qed
  qed
qed

section \<open>Properties of the handler\<close>

definition accepted :: "request \<Rightarrow> recipient list \<Rightarrow> bool" where
  "accepted req rcps \<longleftrightarrow>
     req_recipients req = Some rcps \<and> rcps \<noteq> [] \<and> req_subject req \<noteq> [] \<and> req_htmlBody req \<noteq> []"

definition pending_rows :: "recipient list \<Rightarrow> recipient_row list" where
  "pending_rows rcps = map (\<lambda>(idx, rec). insertRec idx rec) (enumerate 0 rcps)"

definition start_state :: "recipient list \<Rightarrow> loop_state" where
  "start_state rcps =
     \<lparr>results = [], stoppedAt = None, sentCount = 0, failedCount = 0,
      rows = pending_rows rcps, mail_calls = 0\<rparr>"

definition created :: "request \<Rightarrow> recipient list \<Rightarrow> batch_row" where
  "created req rcps =
     insertBatch (req_subject req) (req_htmlBody req) (length rcps)
       (case req_csvName req of None \<Rightarrow> None | Some n \<Rightarrow> if n = [] then None else Some n)"

definition finalize :: "request \<Rightarrow> recipient list \<Rightarrow> loop_state \<Rightarrow> outcome" where
  "finalize req rcps st =
     \<lparr>out_ledger =
        Some \<lparr>batch = updateBatch (sentCount st) (failedCount st) (length (results st))
                        (if length (results st) = length rcps \<and> js_not (stoppedAt st)
                         then Completed else Stopped)
                        (stoppedAt st) None (created req rcps),
              recipients = rows st\<rparr>,
      out_response =
        Ok_Json \<lparr>s_sent = sentCount st, s_failed = failedCount st, s_total = length rcps,
                 s_processed = length (results st), s_stoppedAt = stoppedAt st,
                 s_results = results st\<rparr>,
      out_sends = mail_calls st\<rparr>"

lemma send_emails_verified:
  assumes "accepted req rcps" and "verifySmtpWithRetry t = Inr u"
  shows "\<exists>st. send_loop t (req_subject req) (req_htmlBody req) rcps 0 (start_state rcps) = Inr st \<and>
     send_emails t req = finalize req rcps st"
proof -
  from send_loop_returns [of t "req_subject req" "req_htmlBody req" rcps 0 "start_state rcps"]
  obtain st where st: "send_loop t (req_subject req) (req_htmlBody req) rcps 0 (start_state rcps) = Inr st"
    by blast
  have "send_emails t req = finalize req rcps st"
    using assms st
    unfolding send_emails_def accepted_def finalize_def created_def start_state_def pending_rows_def
    by (simp add: Let_def)
  with st show ?thesis by blast
qed

lemma send_emails_unverified:
  assumes "accepted req rcps" and "verifySmtpWithRetry t = Inl err"
  shows "send_emails t req =
     \<lparr>out_ledger =
        Some \<lparr>batch = updateBatch 0 0 0 Stopped None
                        (Some (''SMTP verify failed: '' @ error_text err)) (created req rcps),
              recipients = pending_rows rcps\<rparr>,
      out_response = Server_Error ''SMTP connection failed'' (err_message err) (err_code err),
      out_sends = 0\<rparr>"
  using assms
  unfolding send_emails_def accepted_def created_def pending_rows_def
  by (simp add: Let_def)

lemma length_pending_rows [simp]: "length (pending_rows rcps) = length rcps"
  by (simp add: pending_rows_def)

lemma nth_pending_rows:
  "j < length rcps \<Longrightarrow> pending_rows rcps ! j = insertRec j (rcps ! j)"
  by (simp add: pending_rows_def nth_enumerate_eq)

lemma r_idx_insertRec [simp]: "r_idx (insertRec j rcp) = j"
  by (simp add: insertRec_def Let_def)

lemma insertRec_pending [simp]:
  "r_status (insertRec j rcp) = Pending" "r_attempt (insertRec j rcp) = 0"
  "r_error (insertRec j rcp) = None"
  by (simp_all add: insertRec_def Let_def)

text \<open>The rows of the ledger after the loop, one by one.\<close>

lemma final_rows:
  assumes "send_loop t s h rcps 0 (start_state rcps) = Inr st"
  shows "j < length rcps \<Longrightarrow> rows st ! j =
     (if j < length (results st) then row_update (results st ! j) (insertRec j (rcps ! j))
      else insertRec j (rcps ! j))"
    and "length (rows st) = length rcps"
proof -
  have "length (results (start_state rcps)) = 0" by (simp add: start_state_def)
  from send_loop_rows [OF assms this]
  have eq: "rows st = map (\<lambda>row. if r_idx row < length (results st)
                then row_update (results st ! r_idx row) row else row) (pending_rows rcps)"
    by (simp add: start_state_def)
  then show "length (rows st) = length rcps" by simp
  from eq show "j < length rcps \<Longrightarrow> rows st ! j =
     (if j < length (results st) then row_update (results st ! j) (insertRec j (rcps ! j))
      else insertRec j (rcps ! j))"
    by (simp add: nth_pending_rows)
qed


lemma start_state_facts:
  "length (results (start_state rcps)) = 0" "stoppedAt (start_state rcps) = None"
  "list_all (\<lambda>r. \<not> stopping r) (results (start_state rcps))"
  "counted (start_state rcps)"
  by (simp_all add: start_state_def counted_def)

text \<open>
  C3. When the request is accepted and the verification of the connection succeeds, the
  handler runs the send loop and finalizes the batch row: \<open>processed\<close> is the number of
  results, \<open>sent\<close> the number of those with status \<open>sent\<close>, \<open>failed\<close> the number of
  those with status \<open>error\<close>, every result has one of the two statuses, so
  \<open>processed = sent + failed\<close>, and \<open>processed \<le> total\<close>, the number of recipients
  submitted.
\<close>

theorem batch_counts:
  assumes "accepted req rcps" and "verifySmtpWithRetry t = Inr ()"
  shows "\<exists>l sm. out_ledger (send_emails t req) = Some l \<and>
     out_response (send_emails t req) = Ok_Json sm \<and>
     b_status (batch l) \<noteq> In_progress \<and>
     b_total (batch l) = length rcps \<and>
     b_processed (batch l) = b_sent (batch l) + b_failed (batch l) \<and>
     b_processed (batch l) \<le> b_total (batch l) \<and>
     b_processed (batch l) = length (s_results sm) \<and>
     b_sent (batch l) = length (filter (\<lambda>r. res_status r = Sent) (s_results sm)) \<and>
     b_failed (batch l) = length (filter (\<lambda>r. res_status r = Error) (s_results sm)) \<and>
     list_all (\<lambda>r. res_status r = Sent \<or> res_status r = Error) (s_results sm)"
proof -
  from send_emails_verified [OF assms]
  obtain st where run: "send_loop t (req_subject req) (req_htmlBody req) rcps 0 (start_state rcps) = Inr st"
    and out: "send_emails t req = finalize req rcps st"
    by blast
  from send_loop_counted [OF start_state_facts(4) run] have c: "counted st" .
  from counted_sum [OF c] have sum: "sentCount st + failedCount st = length (results st)" .
  from send_loop_prefix [OF run] have le: "length (results st) \<le> length rcps"
    by (simp add: start_state_def)
  let ?l = "\<lparr>batch = updateBatch (sentCount st) (failedCount st) (length (results st))
                        (if length (results st) = length rcps \<and> js_not (stoppedAt st)
                         then Completed else Stopped)
                        (stoppedAt st) None (created req rcps),
              recipients = rows st\<rparr>"
  let ?sm = "\<lparr>s_sent = sentCount st, s_failed = failedCount st, s_total = length rcps,
                 s_processed = length (results st), s_stoppedAt = stoppedAt st,
                 s_results = results st\<rparr>"
  have "out_ledger (send_emails t req) = Some ?l" "out_response (send_emails t req) = Ok_Json ?sm"
    by (simp_all add: out finalize_def)
  moreover have "b_status (batch ?l) \<noteq> In_progress" "b_total (batch ?l) = length rcps"
    by (simp_all add: updateBatch_def created_def insertBatch_def)
  moreover have "b_processed (batch ?l) = b_sent (batch ?l) + b_failed (batch ?l)"
    "b_processed (batch ?l) \<le> b_total (batch ?l)"
    "b_processed (batch ?l) = length (s_results ?sm)"
    using sum le by (simp_all add: updateBatch_def created_def insertBatch_def)
  moreover have "b_sent (batch ?l) = length (filter (\<lambda>r. res_status r = Sent) (s_results ?sm))"
    "b_failed (batch ?l) = length (filter (\<lambda>r. res_status r = Error) (s_results ?sm))"
    "list_all (\<lambda>r. res_status r = Sent \<or> res_status r = Error) (s_results ?sm)"
    using c by (simp_all add: updateBatch_def counted_def)
  ultimately show ?thesis by blast
qed

definition three_recipients :: "recipient list" where
  "three_recipients = [with_email ''a@x.com'', with_email ''b@x.com'', with_email ''c@x.com'']"

lemma accepted_three: "accepted (request_of three_recipients) three_recipients"
  by (simp add: accepted_def request_of_def three_recipients_def)

lemma verify_ok_b: "verifySmtpWithRetry transport_b_resets = Inr ()"
  by code_simp

theorem batch_counts_witness:
  "accepted (request_of three_recipients) three_recipients \<and>
   verifySmtpWithRetry transport_b_resets = Inr () \<and>
   (\<exists>l sm. out_ledger (send_emails transport_b_resets (request_of three_recipients)) = Some l \<and>
     out_response (send_emails transport_b_resets (request_of three_recipients)) = Ok_Json sm \<and>
     b_status (batch l) \<noteq> In_progress \<and>
     b_total (batch l) = length three_recipients \<and>
     b_processed (batch l) = b_sent (batch l) + b_failed (batch l) \<and>
     b_processed (batch l) \<le> b_total (batch l) \<and>
     b_processed (batch l) = length (s_results sm) \<and>
     b_sent (batch l) = length (filter (\<lambda>r. res_status r = Sent) (s_results sm)) \<and>
     b_failed (batch l) = length (filter (\<lambda>r. res_status r = Error) (s_results sm)) \<and>
     list_all (\<lambda>r. res_status r = Sent \<or> res_status r = Error) (s_results sm))"
  using batch_counts [OF accepted_three verify_ok_b] accepted_three verify_ok_b
  by simp

lemma scenario_b:
  "map_option (\<lambda>l. (b_status (batch l), b_sent (batch l), b_failed (batch l),
        b_processed (batch l), b_stopped_at (batch l),
        map (\<lambda>row. (r_status row, r_attempt row)) (recipients l)))
     (out_ledger (send_emails transport_b_resets (request_of three_recipients))) =
   Some (Stopped, 1, 1, 2, Some 1, [(Sent, 1), (Error, 3), (Pending, 0)])"
  by code_simp


lemma stop_structure:
  assumes "send_loop t s h rcps 0 (start_state rcps) = Inr st"
  shows "stoppedAt st = None \<and> length (results st) = length rcps \<and>
       list_all (\<lambda>r. \<not> stopping r) (results st) \<or>
     (\<exists>k. stoppedAt st = Some k \<and> k < length rcps \<and>
          length (results st) = Suc k \<and> stopping (results st ! k) \<and>
          list_all (\<lambda>r. \<not> stopping r) (take k (results st)))"
  using send_loop_stop [OF assms start_state_facts(1,2,3)] by simp

text \<open>
  C2. In a finalized batch with stop index \<open>k\<close>, the recipient at index \<open>k\<close> is the last
  one processed, its row has status \<open>error\<close> and its result carries the class \<open>NETWORK\<close>
  or \<open>TEMP_AUTH\<close>; the row of every recipient with a greater index is the row as
  inserted, with status \<open>pending\<close>. A result with status \<open>error\<close> and class \<open>OTHER\<close> at
  index \<open>j\<close> never sets the stop index to \<open>j\<close>, and the recipient at \<open>j + 1\<close>, when
  there is one, is processed as well.
\<close>

theorem circuit_breaker:
  assumes "accepted req rcps" and "verifySmtpWithRetry t = Inr ()"
  shows "\<exists>l sm. out_ledger (send_emails t req) = Some l \<and>
     out_response (send_emails t req) = Ok_Json sm \<and>
     length (recipients l) = length rcps \<and>
     (\<forall>k. b_stopped_at (batch l) = Some k \<longrightarrow>
        k < length rcps \<and> length (s_results sm) = Suc k \<and>
        r_status (recipients l ! k) = Error \<and>
        res_status (s_results sm ! k) = Error \<and>
        (res_reason (s_results sm ! k) = Some NETWORK \<or>
         res_reason (s_results sm ! k) = Some TEMP_AUTH) \<and>
        (\<forall>j. k < j \<and> j < length rcps \<longrightarrow>
           recipients l ! j = insertRec j (rcps ! j) \<and>
           r_status (recipients l ! j) = Pending)) \<and>
     (\<forall>j. j < length (s_results sm) \<and> res_status (s_results sm ! j) = Error \<and>
          res_reason (s_results sm ! j) = Some OTHER \<longrightarrow>
          b_stopped_at (batch l) \<noteq> Some j \<and>
          (Suc j < length rcps \<longrightarrow> Suc j < length (s_results sm)))"
proof -
  from send_emails_verified [OF assms]
  obtain st where run: "send_loop t (req_subject req) (req_htmlBody req) rcps 0 (start_state rcps) = Inr st"
    and out: "send_emails t req = finalize req rcps st"
    by blast
  note rws = final_rows [OF run]
  let ?l = "\<lparr>batch = updateBatch (sentCount st) (failedCount st) (length (results st))
                        (if length (results st) = length rcps \<and> js_not (stoppedAt st)
                         then Completed else Stopped)
                        (stoppedAt st) None (created req rcps),
              recipients = rows st\<rparr>"
  let ?sm = "\<lparr>s_sent = sentCount st, s_failed = failedCount st, s_total = length rcps,
                 s_processed = length (results st), s_stoppedAt = stoppedAt st,
                 s_results = results st\<rparr>"
  have o1: "out_ledger (send_emails t req) = Some ?l"
    and o2: "out_response (send_emails t req) = Ok_Json ?sm"
    by (simp_all add: out finalize_def)
  have sa: "b_stopped_at (batch ?l) = stoppedAt st"
    by (simp add: updateBatch_def)
  have stop: "k < length rcps \<and> length (results st) = Suc k \<and>
        r_status (rows st ! k) = Error \<and>
        res_status (results st ! k) = Error \<and>
        (res_reason (results st ! k) = Some NETWORK \<or>
         res_reason (results st ! k) = Some TEMP_AUTH) \<and>
        (\<forall>j. k < j \<and> j < length rcps \<longrightarrow>
           rows st ! j = insertRec j (rcps ! j) \<and> r_status (rows st ! j) = Pending)"
    if k: "stoppedAt st = Some k" for k
  proof -
    from stop_structure [OF run] k
    have f: "k < length rcps" "length (results st) = Suc k" "stopping (results st ! k)"
      by auto
    from rws(1) [OF f(1)] f(2,3) have "r_status (rows st ! k) = Error"
      by (simp add: row_update_def stopping_def)
    moreover have "rows st ! j = insertRec j (rcps ! j) \<and> r_status (rows st ! j) = Pending"
      if "k < j \<and> j < length rcps" for j
      using rws(1) [of j] that f(2) by simp
    ultimately show ?thesis using f by (simp add: stopping_def)
  qed
  have other: "stoppedAt st \<noteq> Some j \<and> (Suc j < length rcps \<longrightarrow> Suc j < length (results st))"
    if j: "j < length (results st) \<and> res_status (results st ! j) = Error \<and>
          res_reason (results st ! j) = Some OTHER" for j
  proof -
    from j have ns: "\<not> stopping (results st ! j)" by (simp add: stopping_def)
    from stop_structure [OF run] show ?thesis
    proof
      assume "stoppedAt st = None \<and> length (results st) = length rcps \<and>
        list_all (\<lambda>r. \<not> stopping r) (results st)"
      then show ?thesis by simp
    next
      assume "\<exists>k. stoppedAt st = Some k \<and> k < length rcps \<and>
          length (results st) = Suc k \<and> stopping (results st ! k) \<and>
          list_all (\<lambda>r. \<not> stopping r) (take k (results st))"
      then obtain k where k: "stoppedAt st = Some k" "length (results st) = Suc k"
        "stopping (results st ! k)" by blast
      with ns have "j \<noteq> k" by auto
      with j k(2) have "j < k" by simp
      with k show ?thesis using \<open>j \<noteq> k\<close> by simp
    qed
  qed
  have len: "length (recipients ?l) = length rcps"
    using rws(2) by simp
  have sr: "s_results ?sm = results st" "recipients ?l = rows st"
    by simp_all
  show ?thesis
  proof (intro exI [of _ ?l] exI [of _ ?sm] conjI)
    show "out_ledger (send_emails t req) = Some ?l" by (rule o1)
    show "out_response (send_emails t req) = Ok_Json ?sm" by (rule o2)
    show "length (recipients ?l) = length rcps" by (rule len)
    show "\<forall>k. b_stopped_at (batch ?l) = Some k \<longrightarrow>
        k < length rcps \<and> length (s_results ?sm) = Suc k \<and>
        r_status (recipients ?l ! k) = Error \<and>
        res_status (s_results ?sm ! k) = Error \<and>
        (res_reason (s_results ?sm ! k) = Some NETWORK \<or>
         res_reason (s_results ?sm ! k) = Some TEMP_AUTH) \<and>
        (\<forall>j. k < j \<and> j < length rcps \<longrightarrow>
           recipients ?l ! j = insertRec j (rcps ! j) \<and>
           r_status (recipients ?l ! j) = Pending)"
      unfolding sa sr using stop by blast
    show "\<forall>j. j < length (s_results ?sm) \<and> res_status (s_results ?sm ! j) = Error \<and>
          res_reason (s_results ?sm ! j) = Some OTHER \<longrightarrow>
          b_stopped_at (batch ?l) \<noteq> Some j \<and>
          (Suc j < length rcps \<longrightarrow> Suc j < length (s_results ?sm))"
      unfolding sa sr using other by blast
  qed
qed


theorem circuit_breaker_witness:
  "accepted (request_of three_recipients) three_recipients \<and>
   verifySmtpWithRetry transport_b_resets = Inr () \<and>
   (\<exists>l sm. out_ledger (send_emails transport_b_resets (request_of three_recipients)) = Some l \<and>
     out_response (send_emails transport_b_resets (request_of three_recipients)) = Ok_Json sm \<and>
     b_stopped_at (batch l) = Some 1 \<and>
     r_status (recipients l ! 1) = Error \<and>
     res_reason (s_results sm ! 1) = Some NETWORK \<and>
     r_status (recipients l ! 2) = Pending)"
proof -
  from circuit_breaker [OF accepted_three verify_ok_b]
  obtain l sm where
    o: "out_ledger (send_emails transport_b_resets (request_of three_recipients)) = Some l"
       "out_response (send_emails transport_b_resets (request_of three_recipients)) = Ok_Json sm"
    and st: "\<forall>k. b_stopped_at (batch l) = Some k \<longrightarrow>
        k < length three_recipients \<and> length (s_results sm) = Suc k \<and>
        r_status (recipients l ! k) = Error \<and>
        res_status (s_results sm ! k) = Error \<and>
        (res_reason (s_results sm ! k) = Some NETWORK \<or>
         res_reason (s_results sm ! k) = Some TEMP_AUTH) \<and>
        (\<forall>j. k < j \<and> j < length three_recipients \<longrightarrow>
           recipients l ! j = insertRec j (three_recipients ! j) \<and>
           r_status (recipients l ! j) = Pending)"
    by blast
  have "map_option (\<lambda>l. b_stopped_at (batch l))
      (out_ledger (send_emails transport_b_resets (request_of three_recipients))) = Some (Some 1)"
    by code_simp
  with o(1) have k: "b_stopped_at (batch l) = Some 1" by simp
  have "map_option (\<lambda>sm. res_reason (s_results sm ! 1))
      (case out_response (send_emails transport_b_resets (request_of three_recipients)) of
         Ok_Json sm \<Rightarrow> Some sm | _ \<Rightarrow> None) = Some (Some NETWORK)"
    by code_simp
  with o(2) have n: "res_reason (s_results sm ! 1) = Some NETWORK" by simp
  have "length three_recipients = 3" by (simp add: three_recipients_def)
  with st k have "r_status (recipients l ! 1) = Error" "r_status (recipients l ! 2) = Pending"
    by auto
  with o k n accepted_three verify_ok_b show ?thesis by blast
qed

definition no_address :: recipient where
  "no_address = Some [(''Name'', JStr ''Ada'')]"

text \<open>
  C4, as stated, fails: a recipient without an address reaches the terminal status
  \<open>error\<close> with the attempt count 0.
\<close>

theorem attempt_zero_counterexample:
  "\<exists>l. out_ledger (send_emails transport_ok (request_of [no_address])) = Some l \<and>
     r_status (recipients l ! 0) = Error \<and> \<not> 1 \<le> r_attempt (recipients l ! 0)"
proof -
  have "map_option (\<lambda>l. (r_status (recipients l ! 0), r_attempt (recipients l ! 0)))
      (out_ledger (send_emails transport_ok (request_of [no_address]))) = Some (Error, 0)"
    by code_simp
  then show ?thesis by auto
qed

text \<open>
  C4, amended. A row that has left \<open>pending\<close> records an attempt count between 1 and 3
  when the recipient has an address; the row of a recipient with no address is recorded
  as \<open>error\<close> with the attempt count 0.
\<close>

theorem attempt_bounds:
  assumes "accepted req rcps" and "verifySmtpWithRetry t = Inr ()"
  shows "\<exists>l. out_ledger (send_emails t req) = Some l \<and>
     length (recipients l) = length rcps \<and>
     (\<forall>j. j < length rcps \<and> r_status (recipients l ! j) \<noteq> Pending \<longrightarrow>
        (getField (rcps ! j) ''Email'' [] \<noteq> [] \<longrightarrow>
           1 \<le> r_attempt (recipients l ! j) \<and> r_attempt (recipients l ! j) \<le> 3) \<and>
        (getField (rcps ! j) ''Email'' [] = [] \<longrightarrow>
           r_status (recipients l ! j) = Error \<and> r_attempt (recipients l ! j) = 0))"
proof -
  from send_emails_verified [OF assms]
  obtain st where run: "send_loop t (req_subject req) (req_htmlBody req) rcps 0 (start_state rcps) = Inr st"
    and out: "send_emails t req = finalize req rcps st"
    by blast
  note rws = final_rows [OF run]
  let ?s = "req_subject req" and ?h = "req_htmlBody req"
  from send_loop_results [OF run start_state_facts(1)]
  have res: "\<exists>c c'. sendToRecipientWithRetry t (rcps ! j) ?s ?h c = (Some (results st ! j), c')"
    if "j < length (results st)" for j
    using that by simp
  have row: "(getField (rcps ! j) ''Email'' [] \<noteq> [] \<longrightarrow>
           1 \<le> r_attempt (rows st ! j) \<and> r_attempt (rows st ! j) \<le> 3) \<and>
        (getField (rcps ! j) ''Email'' [] = [] \<longrightarrow>
           r_status (rows st ! j) = Error \<and> r_attempt (rows st ! j) = 0)"
    if j: "j < length rcps \<and> r_status (rows st ! j) \<noteq> Pending" for j
  proof -
    from j rws(1) [of j] have lt: "j < length (results st)"
      by (cases "j < length (results st)") simp_all
    with j rws(1) [of j]
    have rj: "rows st ! j = row_update (results st ! j) (insertRec j (rcps ! j))" by simp
    from res [OF lt] obtain c c' where
      call: "sendToRecipientWithRetry t (rcps ! j) ?s ?h c = (Some (results st ! j), c')"
      by blast
    show ?thesis
    proof (cases "getField (rcps ! j) ''Email'' [] = []")
      case True
      from sendToRecipient_missing [OF True, of t ?s ?h c] call
      have "results st ! j = missing_email_result" by simp
      with True rj show ?thesis
        by (simp add: row_update_def missing_email_result_def)
    next
      case False
      from sendToRecipient_present [OF False, of t ?s ?h c] call
      have "1 \<le> res_attempt (results st ! j) \<and> res_attempt (results st ! j) \<le> MAX_RETRIES"
        by auto
      with False rj show ?thesis
        by (simp add: row_update_def MAX_RETRIES_def)
    qed
  qed
  have "out_ledger (send_emails t req) =
      Some \<lparr>batch = updateBatch (sentCount st) (failedCount st) (length (results st))
                        (if length (results st) = length rcps \<and> js_not (stoppedAt st)
                         then Completed else Stopped)
                        (stoppedAt st) None (created req rcps),
              recipients = rows st\<rparr>"
    by (simp add: out finalize_def)
  with row rws(2) show ?thesis by simp
qed

definition two_recipients :: "recipient list" where
  "two_recipients = [no_address, with_email ''q@x.com'']"

lemma accepted_two: "accepted (request_of two_recipients) two_recipients"
  by (simp add: accepted_def request_of_def two_recipients_def)

lemma verify_ok_ok: "verifySmtpWithRetry transport_ok = Inr ()"
  by code_simp

theorem attempt_bounds_witness:
  "accepted (request_of two_recipients) two_recipients \<and>
   verifySmtpWithRetry transport_ok = Inr () \<and>
   getField (two_recipients ! 0) ''Email'' [] = [] \<and>
   getField (two_recipients ! 1) ''Email'' [] \<noteq> [] \<and>
   (\<exists>l. out_ledger (send_emails transport_ok (request_of two_recipients)) = Some l \<and>
     r_status (recipients l ! 0) = Error \<and> r_attempt (recipients l ! 0) = 0 \<and>
     r_status (recipients l ! 1) = Sent \<and>
     1 \<le> r_attempt (recipients l ! 1) \<and> r_attempt (recipients l ! 1) \<le> 3)"
proof -
  from attempt_bounds [OF accepted_two verify_ok_ok]
  obtain l where o: "out_ledger (send_emails transport_ok (request_of two_recipients)) = Some l"
    and b: "\<forall>j. j < length two_recipients \<and> r_status (recipients l ! j) \<noteq> Pending \<longrightarrow>
        (getField (two_recipients ! j) ''Email'' [] \<noteq> [] \<longrightarrow>
           1 \<le> r_attempt (recipients l ! j) \<and> r_attempt (recipients l ! j) \<le> 3) \<and>
        (getField (two_recipients ! j) ''Email'' [] = [] \<longrightarrow>
           r_status (recipients l ! j) = Error \<and> r_attempt (recipients l ! j) = 0)"
    by blast
  have "map_option (\<lambda>l. map r_status (recipients l))
      (out_ledger (send_emails transport_ok (request_of two_recipients))) = Some [Error, Sent]"
    by code_simp
  with o have s: "r_status (recipients l ! 0) = Error" "r_status (recipients l ! 1) = Sent"
    by auto
  have g: "getField (two_recipients ! 0) ''Email'' [] = []"
    "getField (two_recipients ! 1) ''Email'' [] \<noteq> []"
    by code_simp+
  have len: "length two_recipients = 2" by (simp add: two_recipients_def)
  from b [rule_format, of 0] s(1) g(1) len have "r_attempt (recipients l ! 0) = 0" by simp
  moreover from b [rule_format, of 1] s(2) g(2) len
  have "1 \<le> r_attempt (recipients l ! 1) \<and> r_attempt (recipients l ! 1) \<le> 3" by simp
  ultimately show ?thesis using o s g accepted_two verify_ok_ok by blast
qed

lemma a3: "verify_attempts t 3 c = (case verify t c of None \<Rightarrow> Inr () | Some e \<Rightarrow> Inl e)"
  by (simp add: verify_attempts.simps [of t 3 c] MAX_RETRIES_def Let_def split: option.splits)

lemma a2: "verify_attempts t 2 c =
      (case verify t c of None \<Rightarrow> Inr ()
       | Some e \<Rightarrow> if \<not> (isTemporaryAuthError (Some e) \<or> isNetworkError (Some e)) then Inl e
                  else verify_attempts t 3 (Suc c))"
  by (simp add: verify_attempts.simps [of t 2 c] MAX_RETRIES_def Let_def split: option.splits)

lemma a1: "verify_attempts t 1 c =
      (case verify t c of None \<Rightarrow> Inr ()
       | Some e \<Rightarrow> if \<not> (isTemporaryAuthError (Some e) \<or> isNetworkError (Some e)) then Inl e
                  else verify_attempts t 2 (Suc c))"
  by (simp add: verify_attempts.simps [of t 1 c] MAX_RETRIES_def Let_def split: option.splits)


lemma verify_unrolled:
  "verifySmtpWithRetry t =
     (case verify t 0 of
        None \<Rightarrow> Inr ()
      | Some e0 \<Rightarrow>
          if \<not> (isTemporaryAuthError (Some e0) \<or> isNetworkError (Some e0)) then Inl e0
          else
            (case verify t 1 of
               None \<Rightarrow> Inr ()
             | Some e1 \<Rightarrow>
                 if \<not> (isTemporaryAuthError (Some e1) \<or> isNetworkError (Some e1)) then Inl e1
                 else (case verify t 2 of None \<Rightarrow> Inr () | Some e2 \<Rightarrow> Inl e2)))"
proof -
  have s2: "Suc (Suc 0) = 2" by simp
  show ?thesis
    unfolding verifySmtpWithRetry_def a1 [of t 0] a2 [of t "Suc 0"] a3 [of t "Suc (Suc 0)"]
    by (simp only: One_nat_def s2)
qed

lemma pending_rows_all:
  "list_all (\<lambda>row. r_status row = Pending \<and> r_attempt row = 0 \<and> r_error row = None)
     (pending_rows rcps)"
  by (simp add: list_all_length nth_pending_rows)

text \<open>
  C6. When \<open>verifySmtpWithRetry\<close> throws (every attempt it made has failed: three
  retryable failures, or a failure that is not retryable, see \<open>verify_unrolled\<close>), the
  batch is finalized as \<open>stopped\<close> with the three counts 0 and no stop index, the batch
  row records the error text, \<open>sendMail\<close> is never called, every recipient row is still
  \<open>pending\<close> as inserted, and the answer is the status 500 with the error's message and
  code.
\<close>

theorem verify_failure:
  assumes "accepted req rcps" and "verifySmtpWithRetry t = Inl err"
  shows "\<exists>l. out_ledger (send_emails t req) = Some l \<and>
     b_status (batch l) = Stopped \<and>
     b_sent (batch l) = 0 \<and> b_failed (batch l) = 0 \<and> b_processed (batch l) = 0 \<and>
     b_stopped_at (batch l) = None \<and>
     b_error (batch l) = Some (''SMTP verify failed: '' @ error_text err) \<and>
     out_sends (send_emails t req) = 0 \<and>
     length (recipients l) = length rcps \<and>
     list_all (\<lambda>row. r_status row = Pending \<and> r_attempt row = 0 \<and> r_error row = None)
       (recipients l) \<and>
     out_response (send_emails t req) =
       Server_Error ''SMTP connection failed'' (err_message err) (err_code err)"
  by (simp add: send_emails_unverified [OF assms] updateBatch_def pending_rows_all)

lemma verify_down: "verifySmtpWithRetry transport_down = Inl econnreset"
  by code_simp

theorem verify_failure_witness:
  "accepted (request_of three_recipients) three_recipients \<and>
   verify transport_down 0 = Some econnreset \<and> verify transport_down 1 = Some econnreset \<and>
   verify transport_down 2 = Some econnreset \<and>
   verifySmtpWithRetry transport_down = Inl econnreset \<and>
   (\<exists>l. out_ledger (send_emails transport_down (request_of three_recipients)) = Some l \<and>
     b_status (batch l) = Stopped \<and> b_processed (batch l) = 0 \<and>
     b_error (batch l) = Some ''SMTP verify failed: read ECONNRESET'' \<and>
     out_sends (send_emails transport_down (request_of three_recipients)) = 0 \<and>
     list_all (\<lambda>row. r_status row = Pending \<and> r_attempt row = 0 \<and> r_error row = None)
       (recipients l) \<and>
     out_response (send_emails transport_down (request_of three_recipients)) =
       Server_Error ''SMTP connection failed'' (Some ''read ECONNRESET'') (Some ''ECONNRESET''))"
proof -
  have v: "verify transport_down 0 = Some econnreset" "verify transport_down 1 = Some econnreset"
    "verify transport_down 2 = Some econnreset"
    by (simp_all add: transport_down_def)
  have e: "error_text econnreset = ''read ECONNRESET''"
    "err_message econnreset = Some ''read ECONNRESET''" "err_code econnreset = Some ''ECONNRESET''"
    by (simp_all add: error_text_def econnreset_def)
  from verify_failure [OF accepted_three verify_down]
  obtain l where l: "out_ledger (send_emails transport_down (request_of three_recipients)) = Some l"
    "b_status (batch l) = Stopped" "b_processed (batch l) = 0"
    "b_error (batch l) = Some (''SMTP verify failed: '' @ error_text econnreset)"
    "out_sends (send_emails transport_down (request_of three_recipients)) = 0"
    "list_all (\<lambda>row. r_status row = Pending \<and> r_attempt row = 0 \<and> r_error row = None)
       (recipients l)"
    "out_response (send_emails transport_down (request_of three_recipients)) =
       Server_Error ''SMTP connection failed'' (err_message econnreset) (err_code econnreset)"
    by blast
  from l(4) have l4: "b_error (batch l) = Some ''SMTP verify failed: read ECONNRESET''"
    by (simp add: e)
  from l(7) have l7: "out_response (send_emails transport_down (request_of three_recipients)) =
       Server_Error ''SMTP connection failed'' (Some ''read ECONNRESET'') (Some ''ECONNRESET'')"
    by (simp only: e)
  from l(1,2,3) l4 l(5,6) l7 v accepted_three verify_down show ?thesis by blast
qed

definition missing_email_row :: "nat \<Rightarrow> recipient \<Rightarrow> recipient_row" where
  "missing_email_row j rcp =
     (insertRec j rcp)\<lparr>r_status := Error, r_attempt := 0,
        r_error := Some ''Missing Email field in recipient row''\<rparr>"

text \<open>
  C10. For a recipient at index \<open>j\<close> whose attributes give no address (no key equal to
  \<open>Email\<close> whatever the letter case, or a \<open>null\<close> or empty value: see
  \<open>getField_empty_iff\<close>), \<open>sendToRecipientWithRetry\<close> returns at once, leaving the number
  of calls of \<open>sendMail\<close> as it was, with status \<open>error\<close>, attempt 0, the message
  \<open>Missing Email field in recipient row\<close> and the class \<open>OTHER\<close>. When the loop reaches
  the recipient, that result is recorded and written to the row, the stop index is not
  \<open>j\<close>, and the next recipient, when there is one, is processed. The loop does not
  reach the recipient only when it has stopped at a smaller index; the row is then as
  inserted.
\<close>

theorem missing_email:
  assumes "accepted req rcps" and "verifySmtpWithRetry t = Inr ()"
    and "j < length rcps" and "getField (rcps ! j) ''Email'' [] = []"
  shows "\<exists>l sm. out_ledger (send_emails t req) = Some l \<and>
     out_response (send_emails t req) = Ok_Json sm \<and>
     (\<forall>c. sendToRecipientWithRetry t (rcps ! j) (req_subject req) (req_htmlBody req) c =
        (Some \<lparr>res_email = [], res_status = Error, res_attempt = 0,
               res_error = Some ''Missing Email field in recipient row'',
               res_reason = Some OTHER\<rparr>, c)) \<and>
     (if j < length (s_results sm) then
        s_results sm ! j =
          \<lparr>res_email = [], res_status = Error, res_attempt = 0,
           res_error = Some ''Missing Email field in recipient row'',
           res_reason = Some OTHER\<rparr> \<and>
        recipients l ! j = missing_email_row j (rcps ! j) \<and>
        b_stopped_at (batch l) \<noteq> Some j \<and>
        (if Suc j < length rcps then Suc j < length (s_results sm)
         else b_stopped_at (batch l) = None)
      else (\<exists>k. b_stopped_at (batch l) = Some k \<and> k < j) \<and>
           recipients l ! j = insertRec j (rcps ! j))"
proof -
  from send_emails_verified [OF assms(1,2)]
  obtain st where run: "send_loop t (req_subject req) (req_htmlBody req) rcps 0 (start_state rcps) = Inr st"
    and out: "send_emails t req = finalize req rcps st"
    by blast
  note rws = final_rows [OF run]
  let ?s = "req_subject req" and ?h = "req_htmlBody req"
  let ?l = "\<lparr>batch = updateBatch (sentCount st) (failedCount st) (length (results st))
                        (if length (results st) = length rcps \<and> js_not (stoppedAt st)
                         then Completed else Stopped)
                        (stoppedAt st) None (created req rcps),
              recipients = rows st\<rparr>"
  let ?sm = "\<lparr>s_sent = sentCount st, s_failed = failedCount st, s_total = length rcps,
                 s_processed = length (results st), s_stoppedAt = stoppedAt st,
                 s_results = results st\<rparr>"
  have o1: "out_ledger (send_emails t req) = Some ?l"
    and o2: "out_response (send_emails t req) = Ok_Json ?sm"
    by (simp_all add: out finalize_def)
  have sa: "b_stopped_at (batch ?l) = stoppedAt st"
    by (simp add: updateBatch_def)
  have sr: "s_results ?sm = results st" "recipients ?l = rows st"
    by simp_all
  have call: "sendToRecipientWithRetry t (rcps ! j) ?s ?h c = (Some missing_email_result, c)" for c
    by (rule sendToRecipient_missing [OF assms(4)])
  have reached: "results st ! j = missing_email_result \<and>
        rows st ! j = missing_email_row j (rcps ! j) \<and>
        stoppedAt st \<noteq> Some j \<and>
        (if Suc j < length rcps then Suc j < length (results st) else stoppedAt st = None)"
    if lt: "j < length (results st)"
  proof -
    from send_loop_results [OF run start_state_facts(1)] lt
    obtain c c' where "sendToRecipientWithRetry t (rcps ! j) ?s ?h c = (Some (results st ! j), c')"
      by auto
    with call [of c] have rj: "results st ! j = missing_email_result" by simp
    then have ns: "\<not> stopping (results st ! j)"
      by (simp add: stopping_def missing_email_result_def)
    from rws(1) [OF assms(3)] lt rj
    have row: "rows st ! j = missing_email_row j (rcps ! j)"
      by (simp add: row_update_def missing_email_result_def missing_email_row_def)
    from stop_structure [OF run]
    have "stoppedAt st \<noteq> Some j \<and>
        (if Suc j < length rcps then Suc j < length (results st) else stoppedAt st = None)"
    proof
      assume "stoppedAt st = None \<and> length (results st) = length rcps \<and>
        list_all (\<lambda>r. \<not> stopping r) (results st)"
      then show ?thesis by simp
    next
      assume "\<exists>k. stoppedAt st = Some k \<and> k < length rcps \<and>
          length (results st) = Suc k \<and> stopping (results st ! k) \<and>
          list_all (\<lambda>r. \<not> stopping r) (take k (results st))"
      then obtain k where k: "stoppedAt st = Some k" "length (results st) = Suc k"
        "stopping (results st ! k)" "k < length rcps" by blast
      with ns have "j \<noteq> k" by auto
      with lt k(2) have "j < k" by simp
      with k show ?thesis by simp
    qed
    with rj row show ?thesis by simp
  qed
  have unreached: "(\<exists>k. stoppedAt st = Some k \<and> k < j) \<and> rows st ! j = insertRec j (rcps ! j)"
    if nlt: "\<not> j < length (results st)"
  proof -
    from rws(1) [OF assms(3)] nlt have row: "rows st ! j = insertRec j (rcps ! j)" by simp
    from stop_structure [OF run] nlt assms(3)
    have "\<exists>k. stoppedAt st = Some k \<and> k < j" by auto
    with row show ?thesis by simp
  qed
  show ?thesis
  proof (intro exI [of _ ?l] exI [of _ ?sm] conjI)
    show "out_ledger (send_emails t req) = Some ?l" by (rule o1)
    show "out_response (send_emails t req) = Ok_Json ?sm" by (rule o2)
    show "\<forall>c. sendToRecipientWithRetry t (rcps ! j) ?s ?h c =
        (Some \<lparr>res_email = [], res_status = Error, res_attempt = 0,
               res_error = Some ''Missing Email field in recipient row'',
               res_reason = Some OTHER\<rparr>, c)"
      using call by (simp add: missing_email_result_def)
    show "if j < length (s_results ?sm) then
        s_results ?sm ! j =
          \<lparr>res_email = [], res_status = Error, res_attempt = 0,
           res_error = Some ''Missing Email field in recipient row'',
           res_reason = Some OTHER\<rparr> \<and>
        recipients ?l ! j = missing_email_row j (rcps ! j) \<and>
        b_stopped_at (batch ?l) \<noteq> Some j \<and>
        (if Suc j < length rcps then Suc j < length (s_results ?sm)
         else b_stopped_at (batch ?l) = None)
      else (\<exists>k. b_stopped_at (batch ?l) = Some k \<and> k < j) \<and>
           recipients ?l ! j = insertRec j (rcps ! j)"
      unfolding sa sr using reached unreached
      by (cases "j < length (results st)") (simp_all add: missing_email_result_def)
  qed
qed


theorem missing_email_witness:
  "accepted (request_of two_recipients) two_recipients \<and>
   verifySmtpWithRetry transport_ok = Inr () \<and>
   0 < length two_recipients \<and>
   getField (two_recipients ! 0) ''Email'' [] = [] \<and>
   (\<exists>l sm. out_ledger (send_emails transport_ok (request_of two_recipients)) = Some l \<and>
     out_response (send_emails transport_ok (request_of two_recipients)) = Ok_Json sm \<and>
     length (s_results sm) = 2 \<and>
     res_attempt (s_results sm ! 0) = 0 \<and>
     res_reason (s_results sm ! 0) = Some OTHER \<and>
     recipients l ! 0 = missing_email_row 0 (two_recipients ! 0) \<and>
     b_stopped_at (batch l) \<noteq> Some 0)"
proof -
  have g: "getField (two_recipients ! 0) ''Email'' [] = []"
    by code_simp
  have len: "0 < length two_recipients" "Suc 0 < length two_recipients"
    by (simp_all add: two_recipients_def)
  from missing_email [OF accepted_two verify_ok_ok len(1) g]
  obtain l sm where o: "out_ledger (send_emails transport_ok (request_of two_recipients)) = Some l"
      "out_response (send_emails transport_ok (request_of two_recipients)) = Ok_Json sm"
    and c: "if 0 < length (s_results sm) then
        s_results sm ! 0 =
          \<lparr>res_email = [], res_status = Error, res_attempt = 0,
           res_error = Some ''Missing Email field in recipient row'',
           res_reason = Some OTHER\<rparr> \<and>
        recipients l ! 0 = missing_email_row 0 (two_recipients ! 0) \<and>
        b_stopped_at (batch l) \<noteq> Some 0 \<and>
        (if Suc 0 < length two_recipients then Suc 0 < length (s_results sm)
         else b_stopped_at (batch l) = None)
      else (\<exists>k. b_stopped_at (batch l) = Some k \<and> k < 0) \<and>
           recipients l ! 0 = insertRec 0 (two_recipients ! 0)"
    by blast
  have "map_option (\<lambda>sm. length (s_results sm))
      (case out_response (send_emails transport_ok (request_of two_recipients)) of
         Ok_Json sm \<Rightarrow> Some sm | _ \<Rightarrow> None) = Some 2"
    by code_simp
  with o(2) have n: "length (s_results sm) = 2" by simp
  with c have "res_attempt (s_results sm ! 0) = 0" "res_reason (s_results sm ! 0) = Some OTHER"
    "recipients l ! 0 = missing_email_row 0 (two_recipients ! 0)"
    "b_stopped_at (batch l) \<noteq> Some 0"
    by simp_all
  with o n g len(1) accepted_two verify_ok_ok show ?thesis by blast
qed

lemma getField_empty_iff:
  "getField rcp f [] = [] \<longleftrightarrow>
     (case rcp of
        None \<Rightarrow> True
      | Some entries \<Rightarrow>
          (case find (\<lambda>k. toLowerCase k = toLowerCase f) (map fst entries) of
             None \<Rightarrow> True
           | Some key \<Rightarrow>
               key = [] \<or> map_of entries key = None \<or> map_of entries key = Some JNull \<or>
               map_of entries key = Some (JStr [])))"
  by (auto simp: getField_def split: option.splits jval.splits)

lemma final_status_as_coded:
  assumes "accepted req rcps" and "verifySmtpWithRetry t = Inr ()"
  shows "\<exists>l. out_ledger (send_emails t req) = Some l \<and>
     (b_status (batch l) = Completed \<longleftrightarrow>
        b_processed (batch l) = b_total (batch l) \<and>
        (b_stopped_at (batch l) = None \<or> b_stopped_at (batch l) = Some 0)) \<and>
     (b_status (batch l) = Stopped \<longleftrightarrow> b_status (batch l) \<noteq> Completed) \<and>
     (2 \<le> length rcps \<longrightarrow>
        (b_status (batch l) = Completed \<longleftrightarrow>
           b_processed (batch l) = b_total (batch l) \<and> b_stopped_at (batch l) = None))"
proof -
  from send_emails_verified [OF assms]
  obtain st where run: "send_loop t (req_subject req) (req_htmlBody req) rcps 0 (start_state rcps) = Inr st"
    and out: "send_emails t req = finalize req rcps st"
    by blast
  from stop_structure [OF run]
  have "stoppedAt st = Some 0 \<longrightarrow> length (results st) = 1" by auto
  then show ?thesis
    by (auto simp: out finalize_def updateBatch_def created_def insertBatch_def js_not_def
        split: option.splits)
qed

text \<open>
  C1, on a batch of one recipient whose delivery fails three times with \<open>ECONNRESET\<close>:
  the loop stops at index 0, and the batch row is finalized with the stop index 0 and
  the status \<open>completed\<close>, since \<open>!stoppedAt\<close> holds of the index 0. For two recipients or
  more the status is \<open>completed\<close> exactly when every recipient was processed and no stop
  occurred (\<open>final_status_as_coded\<close>).
\<close>

theorem single_recipient_stop_marked_completed:
  "map_option (\<lambda>l. (b_status (batch l), b_stopped_at (batch l), b_processed (batch l),
        b_total (batch l), map r_status (recipients l)))
     (out_ledger (send_emails transport_resets (request_of [with_email ''a@x.com'']))) =
   Some (Completed, Some 0, 1, 1, [Error])"
  by code_simp

section \<open>Properties of the archive\<close>

lemma render_all_names:
  "render_all r s h rcps n = Some files \<Longrightarrow>
   map fst files = map (\<lambda>rcp. pdf_filename (getField rcp ''Email'' ''unknown'')) rcps"
proof (induction rcps arbitrary: n files)
  case Nil
  then show ?case by simp
next
  case (Cons rcp rest)
  then show ?case
    by (auto simp: Let_def split: option.splits)
qed

lemma safe_underscore: "safe_char (CHR ''_'')"
  by code_simp

lemma safe_literals: "list_all safe_char ''recipient''" "list_all safe_char ''.pdf''"
  by code_simp+

lemma safeEmail_safe: "list_all safe_char (safeEmail email)"
  by (auto simp: safeEmail_def list_all_iff safe_underscore)

lemma pdf_filename_safe: "list_all safe_char (pdf_filename email)"
  using safe_literals safeEmail_safe [of email]
  by (simp add: pdf_filename_def Let_def)

lemma safe_chars_listed:
  "filter safe_char (map char_of [0..<256::nat]) =
     ''-.0123456789@ABCDEFGHIJKLMNOPQRSTUVWXYZ_abcdefghijklmnopqrstuvwxyz''"
  by code_simp

text \<open>
  C9, amended. When \<open>POST /api/email-pdfs\<close> answers with the archive, the archive has
  one entry for each recipient, in the order of the recipients. The name of an entry is
  the recipient's address, which is the value \<open>getField\<close> finds for \<open>Email\<close> and the
  word \<open>unknown\<close> when the recipient is \<open>null\<close>, has no such key or holds \<open>null\<close> there,
  with every character that is not an ASCII letter, a digit or one of \<open>@ . _ -\<close>
  replaced by \<open>_\<close>, or \<open>recipient\<close> when the address is the empty string, followed by
  \<open>.pdf\<close>; every character of a name is one of those characters (\<open>safe_chars_listed\<close>
  lists them).
\<close>

theorem archive_entries:
  assumes "req_recipients req = Some rcps" and "email_pdfs r req = Zip entries"
  shows "length entries = length rcps \<and>
     map fst entries = map (\<lambda>rcp. pdf_filename (getField rcp ''Email'' ''unknown'')) rcps \<and>
     list_all (\<lambda>e. list_all safe_char (fst e)) entries \<and>
     (\<forall>email. pdf_filename email =
        (if email = [] then ''recipient''
         else map (\<lambda>c. if safe_char c then c else CHR ''_'') email) @ ''.pdf'')"
proof -
  from assms have "render_all r (req_subject req) (req_htmlBody req) rcps 0 = Some entries"
    by (auto simp: email_pdfs_def split: if_splits option.splits)
  from render_all_names [OF this]
  have names: "map fst entries = map (\<lambda>rcp. pdf_filename (getField rcp ''Email'' ''unknown'')) rcps" .
  then have "length (map fst entries) = length rcps" by simp
  then have len: "length entries = length rcps" by simp
  have "list_all (list_all safe_char) (map fst entries)"
    unfolding names using pdf_filename_safe by (auto simp: list_all_iff)
  then have safe: "list_all (\<lambda>e. list_all safe_char (fst e)) entries"
    by (simp add: list_all_iff)
  have "pdf_filename email =
        (if email = [] then ''recipient''
         else map (\<lambda>c. if safe_char c then c else CHR ''_'') email) @ ''.pdf''" for email
    by (simp add: pdf_filename_def safeEmail_def Let_def)
  with len names safe show ?thesis by blast
qed


definition renderer_ok :: renderer where
  "renderer_ok = \<lparr>launch = True, pdf = (\<lambda>n html. Some (''%PDF '' @ html))\<rparr>"

definition odd_recipients :: "recipient list" where
  "odd_recipients = [with_email ''a b@x.com'', with_email [], no_address]"

theorem archive_entries_witness:
  "req_recipients (request_of odd_recipients) = Some odd_recipients \<and>
   (\<exists>entries. email_pdfs renderer_ok (request_of odd_recipients) = Zip entries \<and>
      length entries = 3 \<and>
      map fst entries = [''a_b@x.com.pdf'', ''recipient.pdf'', ''unknown.pdf''] \<and>
      list_all (\<lambda>e. list_all safe_char (fst e)) entries)"
proof -
  have rq: "req_recipients (request_of odd_recipients) = Some odd_recipients"
    by (simp add: request_of_def)
  have "case email_pdfs renderer_ok (request_of odd_recipients) of Zip es \<Rightarrow> True | _ \<Rightarrow> False"
    by code_simp
  then have "\<exists>entries. email_pdfs renderer_ok (request_of odd_recipients) = Zip entries"
    by (cases "email_pdfs renderer_ok (request_of odd_recipients)") simp_all
  then obtain entries where z: "email_pdfs renderer_ok (request_of odd_recipients) = Zip entries"
    by blast
  have n: "map (\<lambda>rcp. pdf_filename (getField rcp ''Email'' ''unknown'')) odd_recipients =
      [''a_b@x.com.pdf'', ''recipient.pdf'', ''unknown.pdf'']"
    by code_simp
  have l: "length odd_recipients = 3" by (simp add: odd_recipients_def)
  from archive_entries [OF rq z] rq z n l show ?thesis by auto
qed

definition addressless :: "recipient list" where
  "addressless = [no_address, None, Some [(''Email'', JNull)]]"

text \<open>
  C9, as stated, fails for a recipient without an address: a recipient with no key
  \<open>Email\<close>, a \<open>null\<close> recipient and a recipient whose \<open>Email\<close> is \<open>null\<close> have no
  address (\<open>getField\<close> with the empty default finds none), and their entries are named
  \<open>unknown.pdf\<close>, not \<open>recipient.pdf\<close>.
\<close>

theorem unknown_entry_counterexample:
  "list_all (\<lambda>rcp. getField rcp ''Email'' [] = []) addressless \<and>
   (case email_pdfs renderer_ok (request_of addressless) of
      Zip entries \<Rightarrow> map fst entries
    | _ \<Rightarrow> []) = [''unknown.pdf'', ''unknown.pdf'', ''unknown.pdf''] \<and>
   ''unknown.pdf'' \<noteq> ''recipient.pdf''"
  by code_simp

section \<open>Properties of the template engine\<close>

definition placeholder :: "string \<Rightarrow> string" where
  "placeholder key = CHR ''{'' # key @ ''}''"

definition brace_free :: "string \<Rightarrow> bool" where
  "brace_free k \<longleftrightarrow> CHR ''{'' \<notin> set k \<and> CHR ''}'' \<notin> set k"

lemma backslash_special: "regex_special backslash"
  by (simp add: regex_special_def)

lemma brace_special: "regex_special (CHR ''{'')" "regex_special (CHR ''}'')"
  by (simp_all add: regex_special_def)

lemma literal_escapeRegExp:
  "literal_of_pattern (escapeRegExp k @ rest) = k @ literal_of_pattern rest"
proof (induction k)
  case Nil
  show ?case by (simp add: escapeRegExp_def)
next
  case (Cons c k)
  have step: "escapeRegExp (c # k) = (if regex_special c then [backslash, c] else [c]) @ escapeRegExp k"
    by (simp add: escapeRegExp_def)
  show ?case
  proof (cases "regex_special c")
    case True
    with Cons show ?thesis by (simp add: step)
  next
    case False
    with backslash_special have "c \<noteq> backslash" by auto
    with False Cons show ?thesis by (simp add: step)
  qed
qed

lemma pattern_literal:
  "literal_of_pattern ([backslash, CHR ''{''] @ escapeRegExp key @ [backslash, CHR ''}'']) =
   placeholder key"
proof -
  have "literal_of_pattern [backslash, CHR ''}''] = ''}''" by simp
  with literal_escapeRegExp [of key "[backslash, CHR ''}'']"] show ?thesis
    by (simp add: placeholder_def)
qed

lemma apply_entry_eq:
  "apply_entry result (key, v) =
     (if key = [] then result
      else replace_global (placeholder key) (case v of JNull \<Rightarrow> [] | JStr s \<Rightarrow> s) [] result)"
  unfolding apply_entry_def Let_def fst_conv snd_conv pattern_literal ..

lemma placeholder_nonempty [simp]: "placeholder k \<noteq> []"
  by (simp add: placeholder_def)

lemma replace_global_absent:
  "pat \<noteq> [] \<Longrightarrow> \<not> sublist pat s \<Longrightarrow> replace_global pat v pre s = s"
proof (induction s arbitrary: pre)
  case Nil
  then show ?case by (subst replace_global.simps) simp
next
  case (Cons c cs)
  from Cons.prems(2) have np: "\<not> prefix pat (c # cs)" and ns: "\<not> sublist pat cs"
    by (auto simp: sublist_Cons_right)
  from Cons.IH [OF Cons.prems(1) ns] have "replace_global pat v (pre @ [c]) cs = cs" .
  with np Cons.prems(1) show ?case
    by (subst replace_global.simps) simp
qed


lemma apply_entry_absent:
  assumes "k \<noteq> [] \<Longrightarrow> \<not> sublist (placeholder k) s"
  shows "apply_entry s (k, v) = s"
proof (cases "k = []")
  case True
  then show ?thesis unfolding apply_entry_eq by simp
next
  case False
  from replace_global_absent [OF placeholder_nonempty assms [OF False]]
  show ?thesis unfolding apply_entry_eq using False by simp
qed

lemma foldl_apply_entry_absent:
  assumes "\<forall>kv \<in> set entries. fst kv \<noteq> [] \<longrightarrow> \<not> sublist (placeholder (fst kv)) s"
  shows "foldl apply_entry s entries = s"
  using assms
proof (induction entries)
  case Nil
  show ?case by simp
next
  case (Cons kv entries)
  obtain k v where kv: "kv = (k, v)" by (cases kv)
  from Cons.prems have "k \<noteq> [] \<longrightarrow> \<not> sublist (placeholder k) s"
    by (simp add: kv)
  then have a: "apply_entry s (k, v) = s"
    by (intro apply_entry_absent) simp
  from Cons.prems have "\<forall>kv \<in> set entries. fst kv \<noteq> [] \<longrightarrow> \<not> sublist (placeholder (fst kv)) s"
    by simp
  from Cons.IH [OF this] have b: "foldl apply_entry s entries = s" .
  show ?case unfolding kv foldl_Cons a b ..
qed

text \<open>A text without an opening brace holds no placeholder.\<close>

lemma no_open_brace_absent:
  "CHR ''{'' \<notin> set s \<Longrightarrow> \<not> sublist (placeholder k) s"
proof
  assume a: "CHR ''{'' \<notin> set s" and b: "sublist (placeholder k) s"
  from b have "set (placeholder k) \<subseteq> set s" by (rule set_mono_sublist)
  with a show False by (auto simp: placeholder_def)
qed

text \<open>The scan passes over a run of characters that holds no opening brace.\<close>

lemma replace_global_skip:
  "CHR ''{'' \<notin> set u \<Longrightarrow>
   replace_global (placeholder k) v pre (u @ w) = u @ replace_global (placeholder k) v (pre @ u) w"
proof (induction u arbitrary: pre)
  case Nil
  show ?case by simp
next
  case (Cons c u)
  then have c: "c \<noteq> CHR ''{''" and u: "CHR ''{'' \<notin> set u" by auto
  from c have np: "\<not> prefix (placeholder k) (c # u @ w)"
    by (auto simp: placeholder_def)
  have "replace_global (placeholder k) v pre (c # u @ w) =
      c # replace_global (placeholder k) v (pre @ [c]) (u @ w)"
    using np by (subst replace_global.simps) simp
  with Cons.IH [OF u, of "pre @ [c]"] show ?case by simp
qed

lemma sublist_skip:
  "CHR ''{'' \<notin> set u \<Longrightarrow> sublist (placeholder n) (u @ w) \<Longrightarrow> sublist (placeholder n) w"
proof (induction u)
  case Nil
  then show ?case by simp
next
  case (Cons c u)
  from Cons.prems(1) have "\<not> prefix (placeholder n) (c # u @ w)"
    by (auto simp: placeholder_def)
  with Cons.prems(2) have "sublist (placeholder n) (u @ w)"
    by (simp add: sublist_Cons_right)
  with Cons show ?case by simp
qed

lemma same_name:
  "CHR ''}'' \<notin> set n \<Longrightarrow> CHR ''}'' \<notin> set k \<Longrightarrow>
   prefix (n @ CHR ''}'' # x) (k @ CHR ''}'' # y) \<Longrightarrow> n = k"
proof (induction n arbitrary: k)
  case Nil
  then show ?case by (cases k) auto
next
  case (Cons a n)
  then show ?case by (cases k) auto
qed

lemma replace_global_match:
  assumes "prefix (placeholder k) s"
  shows "replace_global (placeholder k) v pre s =
     getSubstitution (placeholder k) pre (drop (length (placeholder k)) s) v @
     replace_global (placeholder k) v (pre @ placeholder k) (drop (length (placeholder k)) s)"
  by (subst replace_global.simps) (simp only: assms placeholder_nonempty if_True if_False)

lemma replace_global_step:
  assumes "\<not> prefix (placeholder k) (c # cs)"
  shows "replace_global (placeholder k) v pre (c # cs) =
     c # replace_global (placeholder k) v (pre @ [c]) cs"
  by (subst replace_global.simps)
    (simp only: assms placeholder_nonempty if_True if_False list.case)

lemma prefix_placeholder:
  "prefix (placeholder n) (c # cs) \<longleftrightarrow> c = CHR ''{'' \<and> prefix (n @ ''}'') cs"
  unfolding placeholder_def by auto

lemma placeholder_after_match:
  assumes "brace_free n" and "brace_free k" and "n \<noteq> k"
    and "sublist (placeholder n) (placeholder k @ rest)"
  shows "sublist (placeholder n) rest"
proof -
  have pk: "placeholder k @ rest = CHR ''{'' # (k @ ''}'') @ rest"
    unfolding placeholder_def by simp
  from assms(4) have "prefix (placeholder n) (CHR ''{'' # (k @ ''}'') @ rest) \<or>
      sublist (placeholder n) ((k @ ''}'') @ rest)"
    unfolding pk sublist_Cons_right .
  then show ?thesis
  proof
    assume "prefix (placeholder n) (CHR ''{'' # (k @ ''}'') @ rest)"
    then have "prefix (n @ ''}'') ((k @ ''}'') @ rest)"
      unfolding prefix_placeholder by simp
    then have p: "prefix (n @ CHR ''}'' # []) (k @ CHR ''}'' # rest)" by simp
    from assms(1,2) have "CHR ''}'' \<notin> set n" "CHR ''}'' \<notin> set k"
      unfolding brace_free_def by simp_all
    from same_name [OF this p] assms(3) show ?thesis by simp
  next
    assume a: "sublist (placeholder n) ((k @ ''}'') @ rest)"
    from assms(2) have "CHR ''{'' \<notin> set (k @ ''}'')"
      unfolding brace_free_def by simp
    from sublist_skip [OF this a] show ?thesis .
  qed
qed

lemma placeholder_kept_at_head:
  assumes "brace_free n" and "prefix (placeholder n) (c # cs)"
  shows "\<exists>pre' tl. replace_global (placeholder k) v pre cs =
           (n @ ''}'') @ replace_global (placeholder k) v pre' tl"
proof -
  from assms(2) have "prefix (n @ ''}'') cs"
    unfolding prefix_placeholder by simp
  then obtain tl where cs: "cs = (n @ ''}'') @ tl"
    unfolding prefix_def by blast
  from assms(1) have "CHR ''{'' \<notin> set (n @ ''}'')"
    unfolding brace_free_def by simp
  from replace_global_skip [OF this, of k v pre tl] show ?thesis
    unfolding cs by blast
qed

lemma replace_global_keeps:
  assumes "brace_free n" and "brace_free k" and "n \<noteq> k"
  shows "sublist (placeholder n) s \<Longrightarrow>
    sublist (placeholder n) (replace_global (placeholder k) v pre s)"
proof (induction s arbitrary: pre rule: length_induct)
  case (1 s)
  let ?P = "placeholder n" and ?Q = "placeholder k"
  show ?case
  proof (cases "prefix ?Q s")
    case True
    then obtain rest where s: "s = ?Q @ rest" unfolding prefix_def by blast
    have dr: "drop (length ?Q) s = rest" unfolding s by simp
    note eq = replace_global_match [OF True, of v pre, unfolded dr]
    from "1.prems" have "sublist ?P (?Q @ rest)" unfolding s .
    from placeholder_after_match [OF assms this] have r: "sublist ?P rest" .
    have "length rest < length s" unfolding s by simp
    with r "1.IH" have "sublist ?P (replace_global ?Q v (pre @ ?Q) rest)"
      by blast
    then have "sublist ?P (getSubstitution ?Q pre rest v @ replace_global ?Q v (pre @ ?Q) rest)"
      by (rule sublist_order.order.trans) (rule sublist_append_leftI)
    then show ?thesis unfolding eq .
  next
    case False
    from "1.prems" have "s \<noteq> []" by auto
    then obtain c cs where s: "s = c # cs" by (cases s) auto
    note eq = replace_global_step [OF False [unfolded s], of v pre]
    from "1.prems" have "prefix ?P (c # cs) \<or> sublist ?P cs"
      unfolding s sublist_Cons_right .
    then show ?thesis
    proof
      assume a: "sublist ?P cs"
      have "length cs < length s" unfolding s by simp
      with a "1.IH" have "sublist ?P (replace_global ?Q v (pre @ [c]) cs)"
        by blast
      then have "sublist ?P (c # replace_global ?Q v (pre @ [c]) cs)"
        unfolding sublist_Cons_right by (rule disjI2)
      then show ?thesis unfolding s eq .
    next
      assume a: "prefix ?P (c # cs)"
      then have c: "c = CHR ''{''" unfolding prefix_placeholder by simp
      from placeholder_kept_at_head [OF assms(1) a, of k v "pre @ [c]"]
      obtain pre' tl where "replace_global ?Q v (pre @ [c]) cs =
           (n @ ''}'') @ replace_global ?Q v pre' tl" by blast
      then have "c # replace_global ?Q v (pre @ [c]) cs =
           ?P @ replace_global ?Q v pre' tl"
        unfolding placeholder_def c by simp
      then show ?thesis unfolding s eq by simp
    qed
  qed
qed


lemma apply_entry_keeps:
  assumes "brace_free n" and "brace_free k" and "n \<noteq> k" and "sublist (placeholder n) s"
  shows "sublist (placeholder n) (apply_entry s (k, v))"
proof (cases "k = []")
  case True
  have "apply_entry s (k, v) = s"
    unfolding apply_entry_eq by (rule if_P) (rule True)
  with assms(4) show ?thesis by (simp only:)
next
  case False
  have "apply_entry s (k, v) =
      replace_global (placeholder k) (case v of JNull \<Rightarrow> [] | JStr x \<Rightarrow> x) [] s"
    unfolding apply_entry_eq by (rule if_not_P) (rule False)
  with replace_global_keeps [OF assms] show ?thesis by (simp only:)
qed

lemma foldl_apply_entry_keeps:
  assumes "brace_free n"
  shows "list_all (\<lambda>kv. brace_free (fst kv)) entries \<Longrightarrow> n \<notin> set (map fst entries) \<Longrightarrow>
    sublist (placeholder n) s \<Longrightarrow> sublist (placeholder n) (foldl apply_entry s entries)"
proof (induction entries arbitrary: s)
  case Nil
  then show ?case by simp
next
  case (Cons kv entries)
  obtain k v where kv: "kv = (k, v)" by (cases kv)
  from Cons.prems(1) have bk: "brace_free k" and rest: "list_all (\<lambda>kv. brace_free (fst kv)) entries"
    unfolding kv by simp_all
  from Cons.prems(2) have nk: "n \<noteq> k" and nrest: "n \<notin> set (map fst entries)"
    unfolding kv by auto
  from apply_entry_keeps [OF assms bk nk Cons.prems(3)]
  have "sublist (placeholder n) (apply_entry s (k, v))" .
  from Cons.IH [OF rest nrest this] show ?case unfolding kv foldl_Cons .
qed

text \<open>
  C7, as stated, fails for a key that holds a brace: in the template \<open>{x}y}\<close> the
  placeholder \<open>{x}\<close> names no key of the attributes, whose only key is \<open>x}y\<close>, yet the
  rendered text is \<open>v\<close> and the placeholder is gone.
\<close>

theorem brace_key_counterexample:
  "sublist (placeholder ''x'') ''{x}y}'' \<and>
   ''x'' \<notin> set (map fst [(''x}y'', JStr ''v'')]) \<and>
   applyTemplate ''{x}y}'' (Some [(''x}y'', JStr ''v'')]) = ''v'' \<and>
   \<not> sublist (placeholder ''x'') (applyTemplate ''{x}y}'' (Some [(''x}y'', JStr ''v'')]))"
  by code_simp

text \<open>
  C7, amended. When neither the keys of the attributes nor the name \<open>n\<close> hold a brace,
  a placeholder \<open>{n}\<close> of the template whose name is not a key still stands in the
  rendered text. For every template and all attributes: when no placeholder \<open>{k}\<close> of a
  non-empty key \<open>k\<close> occurs in the template, and so when there are no attributes at
  all, the rendered text is the template.
\<close>

theorem unmatched_placeholders_kept:
  "(brace_free n \<and> list_all (\<lambda>kv. brace_free (fst kv)) entries \<and>
    n \<notin> set (map fst entries) \<and> sublist (placeholder n) template
      \<longrightarrow> sublist (placeholder n) (applyTemplate template (Some entries))) \<and>
   (list_all (\<lambda>kv. fst kv = [] \<or> \<not> sublist (placeholder (fst kv)) template) entries
      \<longrightarrow> applyTemplate template (Some entries) = template) \<and>
   applyTemplate template (Some []) = template \<and>
   applyTemplate template None = template"
proof -
  have a: "sublist (placeholder n) (applyTemplate template (Some entries))"
    if h: "brace_free n \<and> list_all (\<lambda>kv. brace_free (fst kv)) entries \<and>
      n \<notin> set (map fst entries) \<and> sublist (placeholder n) template"
  proof -
    from h have "template \<noteq> []" by auto
    then have "applyTemplate template (Some entries) = foldl apply_entry template entries"
      unfolding applyTemplate_def by simp
    with foldl_apply_entry_keeps [of n entries template] h show ?thesis by simp
  qed
  have b: "applyTemplate template (Some entries) = template"
    if h: "list_all (\<lambda>kv. fst kv = [] \<or> \<not> sublist (placeholder (fst kv)) template) entries"
  proof -
    from h have "\<forall>kv \<in> set entries. fst kv \<noteq> [] \<longrightarrow> \<not> sublist (placeholder (fst kv)) template"
      unfolding list_all_iff by blast
    from foldl_apply_entry_absent [OF this] show ?thesis
      unfolding applyTemplate_def by simp
  qed
  have c: "applyTemplate template (Some []) = template" "applyTemplate template None = template"
    unfolding applyTemplate_def by simp_all
  from a b c show ?thesis by blast
qed

definition score_template :: string where
  "score_template = ''Hi {Name}, your score is {Score}''"

theorem unmatched_placeholders_kept_witness:
  "brace_free ''Score'' \<and> list_all (\<lambda>kv. brace_free (fst kv)) [(''Name'', JStr ''Ada'')] \<and>
   ''Score'' \<notin> set (map fst [(''Name'', JStr ''Ada'')]) \<and>
   sublist (placeholder ''Score'') score_template \<and>
   sublist (placeholder ''Score'') (applyTemplate score_template (Some [(''Name'', JStr ''Ada'')])) \<and>
   list_all (\<lambda>kv. fst kv = [] \<or> \<not> sublist (placeholder (fst kv)) score_template)
     [(''City'', JStr ''Oslo'')] \<and>
   applyTemplate score_template (Some [(''City'', JStr ''Oslo'')]) = score_template"
proof -
  have h1: "brace_free ''Score'' \<and> list_all (\<lambda>kv. brace_free (fst kv)) [(''Name'', JStr ''Ada'')] \<and>
      ''Score'' \<notin> set (map fst [(''Name'', JStr ''Ada'')]) \<and>
      sublist (placeholder ''Score'') score_template"
    by code_simp
  have h2: "list_all (\<lambda>kv. fst kv = [] \<or> \<not> sublist (placeholder (fst kv)) score_template)
      [(''City'', JStr ''Oslo'')]"
    by code_simp
  from h1 h2
    unmatched_placeholders_kept [of "''Score''" "[(''Name'', JStr ''Ada'')]" score_template]
    unmatched_placeholders_kept [of n "[(''City'', JStr ''Oslo'')]" score_template for n]
  show ?thesis by blast
qed

lemma rendered_score:
  "applyTemplate score_template (Some [(''Name'', JStr ''Ada'')]) = ''Hi Ada, your score is {Score}''"
  by code_simp

section \<open>Properties of the Name fallback\<close>

definition name_subst :: "attrs \<Rightarrow> string" where
  "name_subst es =
     (case map_of es ''Name'' of
        Some JNull \<Rightarrow> []
      | Some (JStr s) \<Rightarrow> s
      | None \<Rightarrow> getField (Some es) ''Name'' ''Candidate'')"

definition name_missing :: "attrs \<Rightarrow> bool" where
  "name_missing es \<longleftrightarrow>
     (case find (\<lambda>k. toLowerCase k = toLowerCase ''Name'') (map fst es) of
        None \<Rightarrow> True
      | Some key \<Rightarrow> map_of es key = Some JNull)"

lemma getSubstitution_plain:
  "CHR ''$'' \<notin> set v \<Longrightarrow> getSubstitution m b a v = v"
  by (induction v) auto

lemma lower_Name: "toLowerCase ''Name'' = ''name''"
  by code_simp

lemma found_key:
  assumes "find (\<lambda>k. toLowerCase k = toLowerCase ''Name'') (map fst es) = Some key"
  shows "key \<noteq> []" and "map_of es key \<noteq> None" and "toLowerCase key = ''name''"
proof -
  from assms have "key \<in> set (map fst es)" and l: "toLowerCase key = toLowerCase ''Name''"
    by (auto simp: find_Some_iff)
  then show "map_of es key \<noteq> None"
    by (simp add: map_of_eq_None_iff)
  from l show "toLowerCase key = ''name''" by (simp add: lower_Name)
  then show "key \<noteq> []" by (auto simp: toLowerCase_def)
qed

lemma getField_Name:
  "getField (Some es) ''Name'' d =
     (case find (\<lambda>k. toLowerCase k = toLowerCase ''Name'') (map fst es) of
        None \<Rightarrow> d
      | Some key \<Rightarrow> (case map_of es key of Some (JStr s) \<Rightarrow> s | _ \<Rightarrow> d))"
proof (cases "find (\<lambda>k. toLowerCase k = toLowerCase ''Name'') (map fst es)")
  case None
  then show ?thesis by (simp add: getField_def)
next
  case (Some key)
  from found_key(1) [OF Some] Some show ?thesis
    by (simp add: getField_def split: option.splits jval.splits)
qed

lemma default_taken_iff:
  "(\<forall>d. getField (Some es) ''Name'' d = d) \<longleftrightarrow> name_missing es"
proof (cases "find (\<lambda>k. toLowerCase k = toLowerCase ''Name'') (map fst es)")
  case None
  then show ?thesis by (simp add: getField_Name name_missing_def)
next
  case (Some key)
  from found_key(2) [OF Some] obtain v where v: "map_of es key = Some v" by auto
  show ?thesis
  proof (cases v)
    case JNull
    with Some v show ?thesis by (simp add: getField_Name name_missing_def)
  next
    case (JStr s)
    have "getField (Some es) ''Name'' (CHR ''x'' # s) \<noteq> CHR ''x'' # s"
      using Some v JStr by (simp add: getField_Name)
    then have "\<not> (\<forall>d. getField (Some es) ''Name'' d = d)" by blast
    with Some v JStr show ?thesis by (simp add: name_missing_def)
  qed
qed


lemma digit_not_brace: "is_digit c \<Longrightarrow> c \<noteq> CHR ''}''"
proof
  assume "is_digit c" and "c = CHR ''}''"
  then have "is_digit (CHR ''}'')" by simp
  moreover have "\<not> is_digit (CHR ''}'')" by code_simp
  ultimately show False by simp
qed

lemma Name_not_index: "\<not> is_array_index ''Name''"
  by code_simp

lemma index_no_brace: "is_array_index k \<Longrightarrow> CHR ''}'' \<notin> set k"
  unfolding is_array_index_def list_all_iff using digit_not_brace by blast

lemma Name_no_brace: "CHR ''}'' \<notin> set ''Name''" "CHR ''{'' \<notin> set ''Name}''"
  by simp_all

text \<open>The template \<open>pre {Name} post\<close>, with no other opening brace.\<close>

lemma index_key_absent:
  assumes "CHR ''{'' \<notin> set pre" and "CHR ''{'' \<notin> set post" and "is_array_index k"
  shows "\<not> sublist (placeholder k) (pre @ placeholder ''Name'' @ post)"
proof
  assume "sublist (placeholder k) (pre @ placeholder ''Name'' @ post)"
  from sublist_skip [OF assms(1) this]
  have "sublist (placeholder k) (CHR ''{'' # ''Name}'' @ post)"
    unfolding placeholder_def by simp
  then have "prefix (placeholder k) (CHR ''{'' # ''Name}'' @ post) \<or>
      sublist (placeholder k) (''Name}'' @ post)"
    unfolding sublist_Cons_right .
  then show False
  proof
    assume "prefix (placeholder k) (CHR ''{'' # ''Name}'' @ post)"
    then have "prefix (k @ ''}'') (''Name}'' @ post)"
      unfolding prefix_placeholder by simp
    then have "prefix (k @ CHR ''}'' # []) (''Name'' @ CHR ''}'' # post)" by simp
    from same_name [OF index_no_brace [OF assms(3)] Name_no_brace(1) this]
    have "k = ''Name''" .
    with assms(3) Name_not_index show False by simp
  next
    assume a: "sublist (placeholder k) (''Name}'' @ post)"
    from assms(2) have "CHR ''{'' \<notin> set (''Name}'' @ post)" by simp
    with no_open_brace_absent a show False by blast
  qed
qed

lemma drop_length_append: "drop (length xs) (xs @ ys) = ys"
  by simp

lemma replace_Name:
  assumes "CHR ''{'' \<notin> set pre" and "CHR ''{'' \<notin> set post" and "CHR ''$'' \<notin> set v"
  shows "replace_global (placeholder ''Name'') v [] (pre @ placeholder ''Name'' @ post) =
    pre @ v @ post"
proof -
  let ?Q = "placeholder ''Name''"
  have m: "prefix ?Q (?Q @ post)" by (rule prefixI) (rule refl)
  have dr: "drop (length ?Q) (?Q @ post) = post" by (rule drop_length_append)
  from no_open_brace_absent [OF assms(2)] have "\<not> sublist ?Q post" .
  from replace_global_absent [OF placeholder_nonempty this]
  have r: "replace_global ?Q v p post = post" for p .
  have g: "getSubstitution ?Q pre post v = v" by (rule getSubstitution_plain [OF assms(3)])
  have "replace_global ?Q v pre (?Q @ post) =
      getSubstitution ?Q pre post v @ replace_global ?Q v (pre @ ?Q) post"
    using replace_global_match [OF m, of v pre] unfolding dr .
  then have a: "replace_global ?Q v pre (?Q @ post) = v @ post"
    unfolding g r .
  have "replace_global ?Q v [] (pre @ ?Q @ post) = pre @ replace_global ?Q v ([] @ pre) (?Q @ post)"
    by (rule replace_global_skip [OF assms(1)])
  then show ?thesis unfolding append_Nil a .
qed

lemma spread_Name_split:
  "spread_Name name (Some es) =
     filter (\<lambda>kv. is_array_index (fst kv)) es @
     (''Name'', case map_of es ''Name'' of None \<Rightarrow> JStr name | Some v \<Rightarrow> v) #
     filter (\<lambda>kv. \<not> is_array_index (fst kv) \<and> fst kv \<noteq> ''Name'') es"
  unfolding spread_Name_def Let_def by simp

lemma name_value_text:
  "(case (case map_of es ''Name'' of None \<Rightarrow> JStr (getField (Some es) ''Name'' ''Candidate'')
          | Some v \<Rightarrow> v) of JNull \<Rightarrow> [] | JStr s \<Rightarrow> s) = name_subst es"
  unfolding name_subst_def by (simp split: option.splits jval.splits)

lemma render_Name:
  assumes "CHR ''{'' \<notin> set pre" and "CHR ''{'' \<notin> set post"
    and "CHR ''{'' \<notin> set (name_subst es)" and "CHR ''$'' \<notin> set (name_subst es)"
  shows "applyTemplate (pre @ placeholder ''Name'' @ post)
      (Some (spread_Name (getField (Some es) ''Name'' ''Candidate'') (Some es))) =
    pre @ name_subst es @ post"
proof -
  let ?T = "pre @ placeholder ''Name'' @ post"
  let ?idx = "filter (\<lambda>kv. is_array_index (fst kv)) es"
  let ?rest = "filter (\<lambda>kv. \<not> is_array_index (fst kv) \<and> fst kv \<noteq> ''Name'') es"
  let ?nv = "case map_of es ''Name'' of None \<Rightarrow> JStr (getField (Some es) ''Name'' ''Candidate'')
          | Some v \<Rightarrow> v"
  have ne: "?T \<noteq> []" by simp
  have "\<forall>kv \<in> set ?idx. fst kv \<noteq> [] \<longrightarrow> \<not> sublist (placeholder (fst kv)) ?T"
    using index_key_absent [OF assms(1,2)] by simp
  from foldl_apply_entry_absent [OF this] have s1: "foldl apply_entry ?T ?idx = ?T" .
  have s2: "apply_entry ?T (''Name'', ?nv) = pre @ name_subst es @ post"
    unfolding apply_entry_eq name_value_text
    using replace_Name [OF assms(1,2,4)] by simp
  have "CHR ''{'' \<notin> set (pre @ name_subst es @ post)"
    using assms(1,2,3) by simp
  from no_open_brace_absent [OF this]
  have "\<forall>kv \<in> set ?rest. fst kv \<noteq> [] \<longrightarrow>
      \<not> sublist (placeholder (fst kv)) (pre @ name_subst es @ post)"
    by blast
  from foldl_apply_entry_absent [OF this]
  have s3: "foldl apply_entry (pre @ name_subst es @ post) ?rest = pre @ name_subst es @ post" .
  have "applyTemplate ?T (Some (spread_Name (getField (Some es) ''Name'' ''Candidate'') (Some es))) =
      foldl apply_entry (apply_entry (foldl apply_entry ?T ?idx) (''Name'', ?nv)) ?rest"
    unfolding applyTemplate_def spread_Name_split using ne by simp
  then show ?thesis unfolding s1 s2 s3 .
qed


lemma render_general:
  assumes "tmpl \<noteq> []"
  shows "applyTemplate tmpl
      (Some (spread_Name (getField (Some es) ''Name'' ''Candidate'') (Some es))) =
    foldl apply_entry
      (replace_global (placeholder ''Name'') (name_subst es) []
         (foldl apply_entry tmpl (filter (\<lambda>kv. is_array_index (fst kv)) es)))
      (filter (\<lambda>kv. \<not> is_array_index (fst kv) \<and> fst kv \<noteq> ''Name'') es)"
proof -
  let ?idx = "filter (\<lambda>kv. is_array_index (fst kv)) es"
  let ?rest = "filter (\<lambda>kv. \<not> is_array_index (fst kv) \<and> fst kv \<noteq> ''Name'') es"
  let ?nv = "case map_of es ''Name'' of None \<Rightarrow> JStr (getField (Some es) ''Name'' ''Candidate'')
          | Some v \<Rightarrow> v"
  have n: "''Name'' \<noteq> []" by simp
  have s2: "apply_entry x (''Name'', ?nv) =
      replace_global (placeholder ''Name'') (name_subst es) [] x" for x
    unfolding apply_entry_eq name_value_text by (rule if_not_P) (rule n)
  have "applyTemplate tmpl (Some (spread_Name (getField (Some es) ''Name'' ''Candidate'') (Some es))) =
      foldl apply_entry (apply_entry (foldl apply_entry tmpl ?idx) (''Name'', ?nv)) ?rest"
    unfolding applyTemplate_def spread_Name_split using assms by simp
  then show ?thesis unfolding s2 .
qed

lemma placeholder_Name: "placeholder ''Name'' = ''{Name}''"
  unfolding placeholder_def by simp

lemma name_subst_cases:
  "name_subst es =
     (case map_of es ''Name'' of
        Some JNull \<Rightarrow> []
      | Some (JStr s) \<Rightarrow> s
      | None \<Rightarrow>
          if name_missing es then ''Candidate''
          else (case find (\<lambda>k. toLowerCase k = toLowerCase ''Name'') (map fst es) of
                  None \<Rightarrow> []
                | Some key \<Rightarrow> (case map_of es key of Some (JStr s) \<Rightarrow> s | _ \<Rightarrow> [])))"
proof (cases "find (\<lambda>k. toLowerCase k = toLowerCase ''Name'') (map fst es)")
  case None
  then show ?thesis
    unfolding name_subst_def getField_Name name_missing_def
    by (simp split: option.splits jval.splits)
next
  case (Some key)
  from found_key(2) [OF Some] obtain v where v: "map_of es key = Some v" by auto
  show ?thesis
    using Some v
    by (cases v) (simp_all add: name_subst_def getField_Name name_missing_def split: option.splits)
qed

definition null_name :: attrs where
  "null_name = [(''Email'', JStr ''a@x.com''), (''name'', JNull)]"

definition empty_name :: attrs where
  "empty_name = [(''Email'', JStr ''a@x.com''), (''Name'', JStr [])]"

definition only_email :: attrs where
  "only_email = [(''Email'', JStr ''a@x.com'')]"

text \<open>
  C8, as stated, fails for a key that holds \<open>null\<close>: the recipient has the key
  \<open>name\<close>, equal to \<open>Name\<close> but for the letter case, with the value \<open>null\<close>, and the
  message sent to it has \<open>Candidate\<close> in the place of \<open>{Name}\<close> in the subject and in
  the body.
\<close>

theorem null_name_counterexample:
  "find (\<lambda>k. toLowerCase k = toLowerCase ''Name'') (map fst null_name) = Some ''name'' \<and>
   mail_subject (mailOptions_of transport_ok (Some null_name) ''Hi {Name}'' ''<p>Dear {Name}</p>'') =
     ''Hi Candidate'' \<and>
   mail_html (mailOptions_of transport_ok (Some null_name) ''Hi {Name}'' ''<p>Dear {Name}</p>'') =
     ''<p>Dear Candidate</p>'' \<and>
   map_option res_status
     (fst (sendToRecipientWithRetry transport_ok (Some null_name) ''Hi {Name}''
        ''<p>Dear {Name}</p>'' 0)) = Some Sent"
  by code_simp

text \<open>
  C8, amended. Rendering a template for a recipient replaces \<open>{Name}\<close> by the text
  \<open>name_subst\<close>: the value under the key \<open>Name\<close> itself when the recipient has one
  (\<open>null\<close> read as the empty text); otherwise the value of the first key equal to
  \<open>Name\<close> but for the letter case; and the fallback \<open>Candidate\<close> only when there is no
  such key or that first key holds \<open>null\<close>, which is exactly when \<open>getField\<close> gives
  back its default. A key \<open>Name\<close> with the empty string as its value makes the text
  empty. For a subject or body \<open>pre {Name} post\<close> with no other opening brace, and a
  text without \<open>{\<close> and \<open>$\<close>, the subject and body sent are \<open>pre\<close>, the text and \<open>post\<close>
  (or the handler's replacement for an empty subject or body).
\<close>

theorem name_fallback:
  "(tmpl \<noteq> [] \<longrightarrow>
      applyTemplate tmpl (Some (spread_Name (getField (Some es) ''Name'' ''Candidate'') (Some es))) =
      foldl apply_entry
        (replace_global ''{Name}'' (name_subst es) []
           (foldl apply_entry tmpl (filter (\<lambda>kv. is_array_index (fst kv)) es)))
        (filter (\<lambda>kv. \<not> is_array_index (fst kv) \<and> fst kv \<noteq> ''Name'') es)) \<and>
   (CHR ''{'' \<notin> set pre \<and> CHR ''{'' \<notin> set post \<and>
    CHR ''{'' \<notin> set (name_subst es) \<and> CHR ''$'' \<notin> set (name_subst es) \<longrightarrow>
      mail_subject (mailOptions_of t (Some es) (pre @ ''{Name}'' @ post) h) =
        (if pre @ name_subst es @ post = [] then ''No subject''
         else pre @ name_subst es @ post) \<and>
      mail_html (mailOptions_of t (Some es) s (pre @ ''{Name}'' @ post)) =
        (if pre @ name_subst es @ post = []
         then ''<p>Dear '' @ getField (Some es) ''Name'' ''Candidate'' @ '',</p>''
         else pre @ name_subst es @ post)) \<and>
   name_subst es =
     (case map_of es ''Name'' of
        Some JNull \<Rightarrow> []
      | Some (JStr s) \<Rightarrow> s
      | None \<Rightarrow>
          if name_missing es then ''Candidate''
          else (case find (\<lambda>k. toLowerCase k = toLowerCase ''Name'') (map fst es) of
                  None \<Rightarrow> []
                | Some key \<Rightarrow> (case map_of es key of Some (JStr s) \<Rightarrow> s | _ \<Rightarrow> []))) \<and>
   (name_missing es \<longleftrightarrow> (\<forall>d. getField (Some es) ''Name'' d = d)) \<and>
   (map_of es ''Name'' = Some (JStr []) \<longrightarrow> name_subst es = [])"
proof -
  have a: "tmpl \<noteq> [] \<longrightarrow>
      applyTemplate tmpl (Some (spread_Name (getField (Some es) ''Name'' ''Candidate'') (Some es))) =
      foldl apply_entry
        (replace_global ''{Name}'' (name_subst es) []
           (foldl apply_entry tmpl (filter (\<lambda>kv. is_array_index (fst kv)) es)))
        (filter (\<lambda>kv. \<not> is_array_index (fst kv) \<and> fst kv \<noteq> ''Name'') es)"
    using render_general [of tmpl es] unfolding placeholder_Name by blast
  have b: "mail_subject (mailOptions_of t (Some es) (pre @ ''{Name}'' @ post) h) =
        (if pre @ name_subst es @ post = [] then ''No subject''
         else pre @ name_subst es @ post) \<and>
      mail_html (mailOptions_of t (Some es) s (pre @ ''{Name}'' @ post)) =
        (if pre @ name_subst es @ post = []
         then ''<p>Dear '' @ getField (Some es) ''Name'' ''Candidate'' @ '',</p>''
         else pre @ name_subst es @ post)"
    if h: "CHR ''{'' \<notin> set pre \<and> CHR ''{'' \<notin> set post \<and>
      CHR ''{'' \<notin> set (name_subst es) \<and> CHR ''$'' \<notin> set (name_subst es)"
  proof -
    from h have h1: "CHR ''{'' \<notin> set pre" and h2: "CHR ''{'' \<notin> set post"
      and h3: "CHR ''{'' \<notin> set (name_subst es)" and h4: "CHR ''$'' \<notin> set (name_subst es)"
      by blast+
    note r = render_Name [OF h1 h2 h3 h4, unfolded placeholder_Name]
    show ?thesis
      unfolding mailOptions_of_def Let_def mail.simps r by (rule conjI) (rule refl)+
  qed
  have c: "map_of es ''Name'' = Some (JStr []) \<longrightarrow> name_subst es = []"
    unfolding name_subst_def by simp
  from a b name_subst_cases [of es] default_taken_iff [of es] c show ?thesis
    by blast
qed

theorem name_fallback_witness:
  "map_of empty_name ''Name'' = Some (JStr []) \<and>
   name_subst empty_name = [] \<and>
   mail_subject (mailOptions_of transport_ok (Some empty_name) (''Hi '' @ ''{Name}'' @ ''!'') ''<p>x</p>'') =
     ''Hi !'' \<and>
   mail_html (mailOptions_of transport_ok (Some empty_name) ''Hi'' (''<p>Dear '' @ ''{Name}'' @ ''</p>'')) =
     ''<p>Dear </p>'' \<and>
   name_missing only_email \<and> name_subst only_email = ''Candidate'' \<and>
   mail_subject (mailOptions_of transport_ok (Some only_email) (''Hi '' @ ''{Name}'' @ ''!'') ''<p>x</p>'') =
     ''Hi Candidate!''"
proof -
  have e1: "map_of empty_name ''Name'' = Some (JStr [])"
    by (simp add: empty_name_def)
  have e2: "name_subst empty_name = []" "name_subst only_email = ''Candidate''"
    "name_missing only_email"
    by code_simp+
  have p: "CHR ''{'' \<notin> set ''Hi ''" "CHR ''{'' \<notin> set ''!''" "CHR ''{'' \<notin> set ''<p>Dear ''"
    "CHR ''{'' \<notin> set ''</p>''" "CHR ''{'' \<notin> set ''Candidate''" "CHR ''$'' \<notin> set ''Candidate''"
    "CHR ''{'' \<notin> set ([]::string)" "CHR ''$'' \<notin> set ([]::string)"
    by simp_all
  from name_fallback [of _ empty_name "''Hi ''" "''!''" transport_ok "''<p>x</p>''"] p e2
  have s1: "mail_subject (mailOptions_of transport_ok (Some empty_name)
      (''Hi '' @ ''{Name}'' @ ''!'') ''<p>x</p>'') = ''Hi !''"
    by simp
  from name_fallback [of _ empty_name "''<p>Dear ''" "''</p>''" transport_ok _ "''Hi''"] p e2
  have s2: "mail_html (mailOptions_of transport_ok (Some empty_name) ''Hi''
      (''<p>Dear '' @ ''{Name}'' @ ''</p>'')) = ''<p>Dear </p>''"
    by simp
  from name_fallback [of _ only_email "''Hi ''" "''!''" transport_ok "''<p>x</p>''"] p e2
  have s3: "mail_subject (mailOptions_of transport_ok (Some only_email)
      (''Hi '' @ ''{Name}'' @ ''!'') ''<p>x</p>'') = ''Hi Candidate!''"
    by simp
  from e1 e2 s1 s2 s3 show ?thesis by blast
qed

end
